theory Spec2Isabelle
  imports Main "HOL-Library.Word"
begin

section \<open>EncryptedPredictionPoll: the contract as a state transformer\<close>

text \<open>
  The contract \<^verbatim>\<open>EncryptedPredictionPoll\<close> (Solidity 0.8.24) is embedded function by
  function. Storage is a record; a call receives the block timestamp, the sender and the
  contract's own address; every \<^verbatim>\<open>revert\<close> is a value of the type \<open>error\<close>.
  A function of the contract returns its result together with the working storage at the
  moment it returns or reverts; \<open>transact\<close> then applies the roll-back of the virtual
  machine to a reverted call.
\<close>

subsection \<open>Value types\<close>

type_synonym address = "160 word"
type_synonym uint256 = "256 word"
type_synonym uint32 = "32 word"
type_synonym bytes = "8 word list"
type_synonym externalEuint32 = "256 word"

text \<open>The custom errors of the contract, in the order of their declaration, followed by the
  reverts that do not come from a \<^verbatim>\<open>revert\<close> statement of the contract: the checked
  arithmetic of Solidity 0.8 (\<^verbatim>\<open>Panic(0x11)\<close>), a rejected input proof, a rejected
  signature bundle and a payload that \<^verbatim>\<open>abi.decode\<close> refuses.\<close>

datatype error =
    InvalidOptionIndex uint256
  | VotingClosed
  | AlreadyVoted
  | DecryptionAlreadyPending
  | TallyNotFinalized
  | AlreadyFinalized
  | UnexpectedCallback
  | VotingStillOpen
  | InsufficientOptions
  | MismatchedOptionMetadata
  | InvalidVotingDuration
  | InvalidTallyLength
  | ArithmeticPanic
  | InputProofRejected
  | SignaturesRejected
  | DecodeFailed

datatype event =
    VoteSubmitted address
  | TallyDecryptionRequested uint256
  | TallyFinalized "uint32 list"

subsection \<open>The encrypted values\<close>

text \<open>The FHE library (\<^verbatim>\<open>@fhevm/solidity/lib/FHE.sol\<close>) is an external capability and
  not part of the sources; the specification (section 6) fixes its interface and the
  plaintext-equivalent meaning of its operations, which the following definitions follow.\<close>

text \<open>Modelled from the spec: the type \<^verbatim>\<open>euint32\<close> of the FHE library. An encrypted
  32-bit unsigned integer is modelled by the plaintext it stands for and by the identities
  that were granted permission on it.\<close>

record euint32 =
  plain :: uint32
  allowed :: "address set"

text \<open>Modelled from the spec: the type \<^verbatim>\<open>ebool\<close> of the FHE library, an encrypted
  truth value.\<close>

datatype ebool = Ebool (truth: bool)

text \<open>Modelled from the spec: \<^verbatim>\<open>FHE.asEuint32\<close>, the constant lift. Like every
  operation of the library it yields a fresh value on which nobody holds a permission yet.\<close>

definition asEuint32 :: "uint32 \<Rightarrow> euint32" where
  "asEuint32 v = \<lparr>plain = v, allowed = {}\<rparr>"

text \<open>Modelled from the spec: \<^verbatim>\<open>FHE.eq\<close>, the encrypted equality test.\<close>

definition FHE_eq :: "euint32 \<Rightarrow> euint32 \<Rightarrow> ebool" where
  "FHE_eq a b = Ebool (plain a = plain b)"

text \<open>Modelled from the spec: \<^verbatim>\<open>FHE.select\<close>, the encrypted conditional.\<close>

definition FHE_select :: "ebool \<Rightarrow> euint32 \<Rightarrow> euint32 \<Rightarrow> euint32" where
  "FHE_select b x y = \<lparr>plain = (if truth b then plain x else plain y), allowed = {}\<rparr>"

text \<open>Modelled from the spec: \<^verbatim>\<open>FHE.add\<close>, the addition of encrypted unsigned 32-bit
  integers (it wraps around like the plaintext addition).\<close>

definition FHE_add :: "euint32 \<Rightarrow> euint32 \<Rightarrow> euint32" where
  "FHE_add a b = \<lparr>plain = plain a + plain b, allowed = {}\<rparr>"

text \<open>Modelled from the spec: \<^verbatim>\<open>FHE.allow\<close>, the additive permission grant
  (\<^verbatim>\<open>FHE.allowThis\<close> grants to the contract's own address).\<close>

definition FHE_allow :: "euint32 \<Rightarrow> address \<Rightarrow> euint32" where
  "FHE_allow e a = e\<lparr>allowed := insert a (allowed e)\<rparr>"

text \<open>The parts of the environment whose result the contract cannot compute are taken as
  parameters: the verification of an external ciphertext with its proof
  (\<^verbatim>\<open>FHE.fromExternal\<close>, \<open>None\<close> when the proof is rejected, otherwise the plaintext
  the ciphertext stands for), the identifier the oracle hands out for a batch of ciphertexts
  (\<^verbatim>\<open>FHE.requestDecryption\<close>), the verification of the oracle's signatures
  (\<^verbatim>\<open>FHE.checkSignatures\<close>) and \<^verbatim>\<open>abi.decode(cleartexts, (uint32[]))\<close>
  (\<open>None\<close> when the bytes are not the encoding of such an array).\<close>

record capability =
  fromExternal :: "address \<Rightarrow> externalEuint32 \<Rightarrow> bytes \<Rightarrow> uint32 option"
  requestDecryption :: "euint32 list \<Rightarrow> uint256"
  checkSignatures :: "uint256 \<Rightarrow> bytes \<Rightarrow> bytes \<Rightarrow> bool"
  abi_decode :: "bytes \<Rightarrow> uint32 list option"

subsection \<open>Storage and calls\<close>

record poll_option =
  label :: string
  description :: string

record poll =
  pollName :: string
  pollHeadline :: string
  pollDescription :: string
  startTime :: uint256
  endTime :: uint256
  creator :: address
  voterCount :: uint256
  finalized :: bool
  decryptionPending :: bool
  decryptionRequestId :: uint256
  encryptedTallies :: "euint32 list"
  clearTallies :: "uint32 list"
  options :: "poll_option list"
  hasVoted :: "address \<Rightarrow> bool"
  events :: "event list"

record call =
  sender :: address
  timestamp :: uint256
  this :: address

text \<open>The storage of a contract before its constructor runs: every slot is zero.\<close>

definition blank :: poll where
  "blank = \<lparr>pollName = [], pollHeadline = [], pollDescription = [], startTime = 0,
     endTime = 0, creator = 0, voterCount = 0, finalized = False,
     decryptionPending = False, decryptionRequestId = 0, encryptedTallies = [],
     clearTallies = [], options = [], hasVoted = (\<lambda>_. False), events = []\<rparr>"

text \<open>A reverted call leaves the storage (and the event log) as it was before the call.\<close>

definition transact :: "(poll \<Rightarrow> (error + 'a) \<times> poll) \<Rightarrow> poll \<Rightarrow> (error + 'a) \<times> poll" where
  "transact f s = (case f s of (Inl e, _) \<Rightarrow> (Inl e, s) | (Inr r, s') \<Rightarrow> (Inr r, s'))"

subsection \<open>The constructor\<close>

text \<open>One iteration of the constructor's loop: push the option, an encrypted zero and a clear
  zero, and grant the creator permission on the new encrypted tally.\<close>

definition constructorStep :: "string list \<Rightarrow> string list \<Rightarrow> nat \<Rightarrow> poll \<Rightarrow> poll" where
  "constructorStep optionLabels optionDescriptions i s =
     s\<lparr>options := options s @ [\<lparr>label = optionLabels ! i, description = optionDescriptions ! i\<rparr>],
       encryptedTallies := (encryptedTallies s @ [asEuint32 0])
          [i := FHE_allow ((encryptedTallies s @ [asEuint32 0]) ! i) (creator s)],
       clearTallies := clearTallies s @ [0]\<rparr>"

function constructorLoop :: "string list \<Rightarrow> string list \<Rightarrow> nat \<Rightarrow> poll \<Rightarrow> poll" where
  "constructorLoop optionLabels optionDescriptions i s =
     (if i < length optionLabels
      then constructorLoop optionLabels optionDescriptions (Suc i)
             (constructorStep optionLabels optionDescriptions i s)
      else s)"
  by pat_completeness auto
termination
  by (relation "measure (\<lambda>(optionLabels, optionDescriptions, i, s). length optionLabels - i)") auto

declare constructorLoop.simps [simp del]

definition "constructor" ::
  "call \<Rightarrow> string \<Rightarrow> string \<Rightarrow> string \<Rightarrow> string list \<Rightarrow> string list \<Rightarrow> uint256 \<Rightarrow> error + poll" where
  "constructor c name headline descr optionLabels optionDescriptions votingDurationSeconds =
     (if length optionLabels < 2 then Inl InsufficientOptions
      else if length optionDescriptions \<noteq> length optionLabels then Inl MismatchedOptionMetadata
      else if votingDurationSeconds = 0 then Inl InvalidVotingDuration
      else if 2 ^ 256 \<le> unat (timestamp c) + unat votingDurationSeconds then Inl ArithmeticPanic
      else Inr (constructorLoop optionLabels optionDescriptions 0
             (blank\<lparr>pollName := name, pollHeadline := headline, pollDescription := descr,
                creator := sender c, startTime := timestamp c,
                endTime := timestamp c + votingDurationSeconds\<rparr>)))"

subsection \<open>The read-only accessors\<close>

definition optionCount :: "poll \<Rightarrow> uint256" where
  "optionCount s = of_nat (length (options s))"

definition getOption :: "poll \<Rightarrow> uint256 \<Rightarrow> error + poll_option" where
  "getOption s index =
     (if length (options s) = 0 \<or> unat index > length (options s) - 1
      then Inl (InvalidOptionIndex index)
      else Inr (options s ! unat index))"

definition getEncryptedTally :: "poll \<Rightarrow> uint256 \<Rightarrow> error + euint32" where
  "getEncryptedTally s index =
     (if length (encryptedTallies s) = 0 \<or> unat index > length (encryptedTallies s) - 1
      then Inl (InvalidOptionIndex index)
      else Inr (encryptedTallies s ! unat index))"

definition getClearTally :: "poll \<Rightarrow> uint256 \<Rightarrow> error + uint32" where
  "getClearTally s index =
     (if \<not> finalized s then Inl TallyNotFinalized
      else if length (clearTallies s) = 0 \<or> unat index > length (clearTallies s) - 1
      then Inl (InvalidOptionIndex index)
      else Inr (clearTallies s ! unat index))"

definition isVotingOpen :: "call \<Rightarrow> poll \<Rightarrow> bool" where
  "isVotingOpen c s =
     (let afterStart = (timestamp c > startTime s \<or> timestamp c = startTime s);
          beforeEnd = (timestamp c < endTime s);
          onEnd = (timestamp c = endTime s)
      in afterStart \<and> (beforeEnd \<or> onEnd) \<and> \<not> finalized s)"

subsection \<open>Casting a ballot\<close>

text \<open>One iteration of the loop over the encrypted tallies. The loop counter is a
  \<^verbatim>\<open>uint256\<close>; \<^verbatim>\<open>uint32(i)\<close> keeps its low 32 bits.\<close>

definition voteStep :: "call \<Rightarrow> euint32 \<Rightarrow> nat \<Rightarrow> poll \<Rightarrow> poll" where
  "voteStep c choice i s =
     (let isMatch = FHE_eq choice (asEuint32 (of_nat i));
          increment = FHE_select isMatch (asEuint32 1) (asEuint32 0);
          added = FHE_add (encryptedTallies s ! i) increment;
          granted = FHE_allow (FHE_allow (FHE_allow added (this c)) (sender c)) (creator s)
      in s\<lparr>encryptedTallies := (encryptedTallies s)[i := granted]\<rparr>)"

function voteLoop :: "call \<Rightarrow> euint32 \<Rightarrow> nat \<Rightarrow> poll \<Rightarrow> poll" where
  "voteLoop c choice i s =
     (if i < length (encryptedTallies s)
      then voteLoop c choice (Suc i) (voteStep c choice i s)
      else s)"
  by pat_completeness auto
termination
  by (relation "measure (\<lambda>(c, choice, i, s). length (encryptedTallies s) - i)")
     (auto simp: voteStep_def Let_def)

declare voteLoop.simps [simp del]

definition submitEncryptedVote ::
  "capability \<Rightarrow> call \<Rightarrow> externalEuint32 \<Rightarrow> bytes \<Rightarrow> poll \<Rightarrow> (error + unit) \<times> poll" where
  "submitEncryptedVote cap c encryptedOption inputProof s =
     (if timestamp c < startTime s \<or> timestamp c > endTime s then (Inl VotingClosed, s)
      else if hasVoted s (sender c) then (Inl AlreadyVoted, s)
      else case fromExternal cap (sender c) encryptedOption inputProof of
          None \<Rightarrow> (Inl InputProofRejected, s)
        | Some v \<Rightarrow>
            (let s1 = voteLoop c (asEuint32 v) 0 s;
                 s2 = s1\<lparr>hasVoted := (hasVoted s1)(sender c := True)\<rparr>
             in if voterCount s2 = - 1 then (Inl ArithmeticPanic, s2)
                else (Inr (), s2\<lparr>voterCount := voterCount s2 + 1,
                                 events := events s2 @ [VoteSubmitted (sender c)]\<rparr>)))"

subsection \<open>Requesting the decryption\<close>

definition requestEncryptedTallyDecryption ::
  "capability \<Rightarrow> call \<Rightarrow> poll \<Rightarrow> (error + uint256) \<times> poll" where
  "requestEncryptedTallyDecryption cap c s =
     (if timestamp c = endTime s \<or> timestamp c < endTime s then (Inl VotingStillOpen, s)
      else if finalized s then (Inl AlreadyFinalized, s)
      else if decryptionPending s then (Inl DecryptionAlreadyPending, s)
      else (let ciphertexts = map (\<lambda>i. encryptedTallies s ! i) [0 ..< length (encryptedTallies s)];
                requestId = requestDecryption cap ciphertexts
            in (Inr requestId,
                s\<lparr>decryptionPending := True, decryptionRequestId := requestId,
                  events := events s @ [TallyDecryptionRequested requestId]\<rparr>)))"

subsection \<open>The oracle's callback\<close>

text \<open>The loop that copies the decoded tallies into the clear tallies.\<close>

function storeLoop :: "uint32 list \<Rightarrow> nat \<Rightarrow> poll \<Rightarrow> poll" where
  "storeLoop tallies i s =
     (if i < length tallies
      then storeLoop tallies (Suc i) (s\<lparr>clearTallies := (clearTallies s)[i := tallies ! i]\<rparr>)
      else s)"
  by pat_completeness auto
termination
  by (relation "measure (\<lambda>(tallies, i, s). length tallies - i)") auto

declare storeLoop.simps [simp del]

definition decryptionCallback ::
  "capability \<Rightarrow> call \<Rightarrow> uint256 \<Rightarrow> bytes \<Rightarrow> bytes \<Rightarrow> poll \<Rightarrow> (error + bool) \<times> poll" where
  "decryptionCallback cap c requestId cleartexts signatures s =
     (if \<not> decryptionPending s \<or> requestId \<noteq> decryptionRequestId s
      then (Inl UnexpectedCallback, s)
      else if \<not> checkSignatures cap requestId cleartexts signatures
      then (Inl SignaturesRejected, s)
      else case abi_decode cap cleartexts of
          None \<Rightarrow> (Inl DecodeFailed, s)
        | Some tallies \<Rightarrow>
            if length tallies \<noteq> length (clearTallies s) then (Inl InvalidTallyLength, s)
            else (let s1 = storeLoop tallies 0 s
                  in (Inr True, s1\<lparr>finalized := True, decryptionPending := False,
                                   events := events s1 @ [TallyFinalized tallies]\<rparr>)))"

subsection \<open>Runs of the contract\<close>

text \<open>The three state-changing entry points, and the storage a transaction leaves behind
  (the storage before the call when the call reverts).\<close>

datatype operation =
    Vote externalEuint32 bytes
  | Request
  | Callback uint256 bytes bytes

fun perform :: "capability \<Rightarrow> call \<Rightarrow> operation \<Rightarrow> poll \<Rightarrow> poll" where
  "perform cap c (Vote encryptedOption inputProof) s =
     snd (transact (submitEncryptedVote cap c encryptedOption inputProof) s)"
| "perform cap c Request s = snd (transact (requestEncryptedTallyDecryption cap c) s)"
| "perform cap c (Callback requestId cleartexts signatures) s =
     snd (transact (decryptionCallback cap c requestId cleartexts signatures) s)"

fun performAll :: "capability \<Rightarrow> (call \<times> operation) list \<Rightarrow> poll \<Rightarrow> poll" where
  "performAll cap [] s = s"
| "performAll cap ((c, op) # rest) s = performAll cap rest (perform cap c op s)"

text \<open>\<open>reachable cap t s\<close>: the storage \<open>s\<close> is what a deployment followed by any number
  of transactions leaves behind, the last of them in a block with timestamp \<open>t\<close>. Block
  timestamps never decrease along a chain.\<close>

inductive reachable :: "capability \<Rightarrow> uint256 \<Rightarrow> poll \<Rightarrow> bool" for cap :: capability where
  deployed:
    "constructor c name headline descr optionLabels optionDescriptions votingDurationSeconds = Inr s
     \<Longrightarrow> reachable cap (timestamp c) s"
| transacted:
    "reachable cap t s \<Longrightarrow> t \<le> timestamp c \<Longrightarrow> reachable cap (timestamp c) (perform cap c op s)"

code_pred reachable .

text \<open>A sequence of ballots, each of which must be accepted.\<close>

fun submitAll ::
  "capability \<Rightarrow> (call \<times> externalEuint32 \<times> bytes) list \<Rightarrow> poll \<Rightarrow> error + poll" where
  "submitAll cap [] s = Inr s"
| "submitAll cap ((c, encryptedOption, inputProof) # rest) s =
     (case transact (submitEncryptedVote cap c encryptedOption inputProof) s of
        (Inl e, _) \<Rightarrow> Inl e
      | (Inr _, s') \<Rightarrow> submitAll cap rest s')"

text \<open>The plaintext behind a ballot, as the input verification reports it.\<close>

definition ballotPlain :: "capability \<Rightarrow> call \<times> externalEuint32 \<times> bytes \<Rightarrow> uint32 option" where
  "ballotPlain cap b = (case b of (c, encryptedOption, inputProof) \<Rightarrow>
     fromExternal cap (sender c) encryptedOption inputProof)"

text \<open>The storage an accepted ballot leaves behind: the tallies after the loop, the
  sender's flag, the incremented voter count and the event.\<close>

definition accepted :: "call \<Rightarrow> uint32 \<Rightarrow> poll \<Rightarrow> poll" where
  "accepted c v s = (voteLoop c (asEuint32 v) 0 s)
     \<lparr>hasVoted := (hasVoted s)(sender c := True), voterCount := voterCount s + 1,
      events := events s @ [VoteSubmitted (sender c)]\<rparr>"

subsection \<open>A concrete deployment\<close>

text \<open>A capability to run the contract on concrete inputs: an external ciphertext stands for
  the low 32 bits of its handle and its proof is accepted when it is not empty; the oracle
  numbers a request by the size of the batch; a signature bundle is accepted when it is not
  empty; the payload holds one tally per byte. The poll of the specification's scenario A has
  the options X and Y and a window of 3600 seconds, and is deployed at time 1000.\<close>

definition demoCapability :: capability where
  "demoCapability =
     \<lparr>fromExternal = (\<lambda>a h p. if p = [] then None else Some (ucast h)),
      requestDecryption = (\<lambda>cs. of_nat (length cs)),
      checkSignatures = (\<lambda>rid ct sg. sg \<noteq> []),
      abi_decode = (\<lambda>ct. Some (map ucast ct))\<rparr>"

definition calling :: "address \<Rightarrow> uint256 \<Rightarrow> call" where
  "calling a t = \<lparr>sender = a, timestamp = t, this = 77\<rparr>"

definition demoPoll :: poll where
  "demoPoll = projr (constructor (calling 1 1000) ''Poll'' ''Headline'' ''Description''
     [''X'', ''Y''] [''x'', ''y''] 3600)"

text \<open>Three later storages of that poll: after identity 2 voted for option 0 at time 2000;
  after a decryption request at time 5000 (nobody having voted); and after the oracle's
  callback for that request at time 6000.\<close>

definition votedPoll :: poll where
  "votedPoll = perform demoCapability (calling 2 2000) (Vote 0 [1]) demoPoll"

definition pendingPoll :: poll where
  "pendingPoll = perform demoCapability (calling 5 5000) Request demoPoll"

definition finalPoll :: poll where
  "finalPoll = perform demoCapability (calling 6 6000) (Callback 2 [0, 0] [1]) pendingPoll"

text \<open>The number of ballots of a sequence whose plaintext is the option index \<open>i\<close>, as the
  loop of \<open>submitEncryptedVote\<close> compares it (with \<open>uint32(i)\<close>).\<close>

definition votesFor :: "capability \<Rightarrow> (call \<times> externalEuint32 \<times> bytes) list \<Rightarrow> nat \<Rightarrow> nat" where
  "votesFor cap ballots i = length (filter (\<lambda>b. ballotPlain cap b = Some (of_nat i)) ballots)"

text \<open>Scenario A of the specification on that poll: identity 2 votes for option 0, identities
  3 and 4 for option 1; decryption is requested at time 5000 and the oracle answers with the
  tallies 1 and 2. In a second run identity 2 votes for option 0 and the ballot of identity 3
  encrypts the index 7, which is not an option; the oracle answers with the tallies 1 and 0.\<close>

definition scenarioBallots :: "(call \<times> externalEuint32 \<times> bytes) list" where
  "scenarioBallots = [(calling 2 2000, 0, [1]), (calling 3 2100, 1, [1]), (calling 4 2200, 1, [1])]"

definition scenarioVoted :: poll where
  "scenarioVoted = projr (submitAll demoCapability scenarioBallots demoPoll)"

definition scenarioPending :: poll where
  "scenarioPending = perform demoCapability (calling 5 5000) Request scenarioVoted"

definition scenarioFinal :: poll where
  "scenarioFinal = perform demoCapability (calling 6 6000) (Callback 2 [1, 2] [1]) scenarioPending"

definition strayBallots :: "(call \<times> externalEuint32 \<times> bytes) list" where
  "strayBallots = [(calling 2 2000, 0, [1]), (calling 3 2100, 7, [1])]"

definition strayVoted :: poll where
  "strayVoted = projr (submitAll demoCapability strayBallots demoPoll)"

definition strayPending :: poll where
  "strayPending = perform demoCapability (calling 5 5000) Request strayVoted"

definition strayFinal :: poll where
  "strayFinal = perform demoCapability (calling 6 6000) (Callback 2 [1, 0] [1]) strayPending"

text \<open>What every reachable storage satisfies, \<open>t\<close> being the timestamp of the last
  transaction: a finalised poll has no request pending; a request was issued only after the
  window closed; the voter count is the number of identities that voted; the three arrays have
  one entry per option; there are at least two options and the window is not empty.\<close>

definition consistent :: "uint256 \<Rightarrow> poll \<Rightarrow> bool" where
  "consistent t s \<longleftrightarrow>
     (finalized s \<longrightarrow> \<not> decryptionPending s) \<and>
     (finalized s \<or> decryptionPending s \<longrightarrow> endTime s < t) \<and>
     unat (voterCount s) = card {a. hasVoted s a} \<and>
     length (encryptedTallies s) = length (options s) \<and>
     length (clearTallies s) = length (options s) \<and>
     2 \<le> length (options s) \<and>
     startTime s < endTime s"

section \<open>Properties of the loops\<close>

subsection \<open>The loop of \<open>submitEncryptedVote\<close>\<close>

lemma voteLoop_frame:
  "voteLoop c choice i s = s\<lparr>encryptedTallies := encryptedTallies (voteLoop c choice i s)\<rparr>"
proof (induction c choice i s rule: voteLoop.induct)
  case (1 c choice i s)
  show ?case
  proof (cases "i < length (encryptedTallies s)")
    case True
    have "voteLoop c choice i s = voteLoop c choice (Suc i) (voteStep c choice i s)"
      using True by (simp add: voteLoop.simps [of c choice i s])
    also have "\<dots> = (voteStep c choice i s)
        \<lparr>encryptedTallies := encryptedTallies (voteLoop c choice (Suc i) (voteStep c choice i s))\<rparr>"
      using "1.IH" [OF True] .
    finally show ?thesis
      using True by (simp add: voteLoop.simps [of c choice i s] voteStep_def Let_def)
  next
    case False
    then show ?thesis by (simp add: voteLoop.simps [of c choice i s])
  qed
qed

lemma voteLoop_fields:
  "pollName (voteLoop c ch i s) = pollName s"
  "pollHeadline (voteLoop c ch i s) = pollHeadline s"
  "pollDescription (voteLoop c ch i s) = pollDescription s"
  "startTime (voteLoop c ch i s) = startTime s"
  "endTime (voteLoop c ch i s) = endTime s"
  "creator (voteLoop c ch i s) = creator s"
  "voterCount (voteLoop c ch i s) = voterCount s"
  "finalized (voteLoop c ch i s) = finalized s"
  "decryptionPending (voteLoop c ch i s) = decryptionPending s"
  "decryptionRequestId (voteLoop c ch i s) = decryptionRequestId s"
  "clearTallies (voteLoop c ch i s) = clearTallies s"
  "options (voteLoop c ch i s) = options s"
  "hasVoted (voteLoop c ch i s) = hasVoted s"
  "events (voteLoop c ch i s) = events s"
  by (subst voteLoop_frame, simp)+

lemma length_voteLoop:
  "length (encryptedTallies (voteLoop c choice i s)) = length (encryptedTallies s)"
proof (induction c choice i s rule: voteLoop.induct)
  case (1 c choice i s)
  then show ?case
    by (simp add: voteLoop.simps [of c choice i s] voteStep_def Let_def)
qed

lemma plain_voteLoop:
  "j < length (encryptedTallies s) \<Longrightarrow>
   plain (encryptedTallies (voteLoop c choice i s) ! j) =
     (if i \<le> j \<and> of_nat j = plain choice then plain (encryptedTallies s ! j) + 1
      else plain (encryptedTallies s ! j))"
proof (induction c choice i s rule: voteLoop.induct)
  case (1 c choice i s)
  show ?case
  proof (cases "i < length (encryptedTallies s)")
    case True
    have len: "j < length (encryptedTallies (voteStep c choice i s))"
      using "1.prems" by (simp add: voteStep_def Let_def)
    have step: "plain (encryptedTallies (voteStep c choice i s) ! j) =
        (if j = i \<and> of_nat j = plain choice then plain (encryptedTallies s ! j) + 1
         else plain (encryptedTallies s ! j))"
      using "1.prems"
      by (cases "j = i")
         (simp_all add: voteStep_def Let_def FHE_add_def FHE_select_def FHE_eq_def
            FHE_allow_def asEuint32_def eq_commute)
    show ?thesis
      using True "1.IH" [OF True len] step
      by (auto simp: voteLoop.simps [of c choice i s])
  next
    case False
    then show ?thesis using "1.prems" by (simp add: voteLoop.simps [of c choice i s])
  qed
qed

subsection \<open>The loop of \<open>decryptionCallback\<close>\<close>

lemma storeLoop_frame:
  "storeLoop tallies i s = s\<lparr>clearTallies := clearTallies (storeLoop tallies i s)\<rparr>"
proof (induction tallies i s rule: storeLoop.induct)
  case (1 tallies i s)
  show ?case
  proof (cases "i < length tallies")
    case True
    let ?s1 = "s\<lparr>clearTallies := (clearTallies s)[i := tallies ! i]\<rparr>"
    have "storeLoop tallies i s = storeLoop tallies (Suc i) ?s1"
      using True by (simp add: storeLoop.simps [of tallies i s])
    also have "\<dots> = ?s1\<lparr>clearTallies := clearTallies (storeLoop tallies (Suc i) ?s1)\<rparr>"
      using "1.IH" [OF True] .
    finally show ?thesis
      using True by (simp add: storeLoop.simps [of tallies i s])
  next
    case False
    then show ?thesis by (simp add: storeLoop.simps [of tallies i s])
  qed
qed

lemma storeLoop_fields:
  "pollName (storeLoop ts i s) = pollName s"
  "pollHeadline (storeLoop ts i s) = pollHeadline s"
  "pollDescription (storeLoop ts i s) = pollDescription s"
  "startTime (storeLoop ts i s) = startTime s"
  "endTime (storeLoop ts i s) = endTime s"
  "creator (storeLoop ts i s) = creator s"
  "voterCount (storeLoop ts i s) = voterCount s"
  "finalized (storeLoop ts i s) = finalized s"
  "decryptionPending (storeLoop ts i s) = decryptionPending s"
  "decryptionRequestId (storeLoop ts i s) = decryptionRequestId s"
  "encryptedTallies (storeLoop ts i s) = encryptedTallies s"
  "options (storeLoop ts i s) = options s"
  "hasVoted (storeLoop ts i s) = hasVoted s"
  "events (storeLoop ts i s) = events s"
  by (subst storeLoop_frame, simp)+

lemma clearTallies_storeLoop:
  "length tallies = length (clearTallies s) \<Longrightarrow> i \<le> length tallies \<Longrightarrow>
   clearTallies (storeLoop tallies i s) = take i (clearTallies s) @ drop i tallies"
proof (induction tallies i s rule: storeLoop.induct)
  case (1 tallies i s)
  show ?case
  proof (cases "i < length tallies")
    case True
    let ?s1 = "s\<lparr>clearTallies := (clearTallies s)[i := tallies ! i]\<rparr>"
    have "clearTallies (storeLoop tallies (Suc i) ?s1) =
        take (Suc i) (clearTallies ?s1) @ drop (Suc i) tallies"
      using "1.IH" [OF True] "1.prems" True by simp
    also have "take (Suc i) (clearTallies ?s1) = take i (clearTallies s) @ [tallies ! i]"
      using True "1.prems" by (simp add: take_Suc_conv_app_nth)
    finally show ?thesis
      using True by (simp add: storeLoop.simps [of tallies i s] Cons_nth_drop_Suc)
  next
    case False
    then have "storeLoop tallies i s = s"
      by (simp add: storeLoop.simps [of tallies i s])
    then show ?thesis using False "1.prems" by simp
  qed
qed

lemma clearTallies_storeLoop_all:
  "length tallies = length (clearTallies s) \<Longrightarrow> clearTallies (storeLoop tallies 0 s) = tallies"
  by (simp add: clearTallies_storeLoop)

subsection \<open>The loop of the constructor\<close>

lemma constructorLoop_frame:
  "constructorLoop ls ds i s =
     s\<lparr>options := options (constructorLoop ls ds i s),
       encryptedTallies := encryptedTallies (constructorLoop ls ds i s),
       clearTallies := clearTallies (constructorLoop ls ds i s)\<rparr>"
proof (induction ls ds i s rule: constructorLoop.induct)
  case (1 ls ds i s)
  show ?case
  proof (cases "i < length ls")
    case True
    let ?s1 = "constructorStep ls ds i s"
    have "constructorLoop ls ds i s = constructorLoop ls ds (Suc i) ?s1"
      using True by (simp add: constructorLoop.simps [of ls ds i s])
    also have "\<dots> = ?s1\<lparr>options := options (constructorLoop ls ds (Suc i) ?s1),
       encryptedTallies := encryptedTallies (constructorLoop ls ds (Suc i) ?s1),
       clearTallies := clearTallies (constructorLoop ls ds (Suc i) ?s1)\<rparr>"
      using "1.IH" [OF True] .
    finally show ?thesis
      using True by (simp add: constructorLoop.simps [of ls ds i s] constructorStep_def)
  next
    case False
    then show ?thesis by (simp add: constructorLoop.simps [of ls ds i s])
  qed
qed

lemma constructorLoop_fields:
  "pollName (constructorLoop ls ds i s) = pollName s"
  "pollHeadline (constructorLoop ls ds i s) = pollHeadline s"
  "pollDescription (constructorLoop ls ds i s) = pollDescription s"
  "startTime (constructorLoop ls ds i s) = startTime s"
  "endTime (constructorLoop ls ds i s) = endTime s"
  "creator (constructorLoop ls ds i s) = creator s"
  "voterCount (constructorLoop ls ds i s) = voterCount s"
  "finalized (constructorLoop ls ds i s) = finalized s"
  "decryptionPending (constructorLoop ls ds i s) = decryptionPending s"
  "decryptionRequestId (constructorLoop ls ds i s) = decryptionRequestId s"
  "hasVoted (constructorLoop ls ds i s) = hasVoted s"
  "events (constructorLoop ls ds i s) = events s"
  by (subst constructorLoop_frame, simp)+

lemma constructorLoop_options:
  "i \<le> length ls \<Longrightarrow> options (constructorLoop ls ds i s) =
     options s @ map (\<lambda>j. \<lparr>label = ls ! j, description = ds ! j\<rparr>) [i ..< length ls]"
proof (induction ls ds i s rule: constructorLoop.induct)
  case (1 ls ds i s)
  show ?case
  proof (cases "i < length ls")
    case True
    have step: "constructorLoop ls ds i s = constructorLoop ls ds (Suc i) (constructorStep ls ds i s)"
      using True by (simp add: constructorLoop.simps [of ls ds i s])
    have "options (constructorStep ls ds i s) = options s @ [\<lparr>label = ls ! i, description = ds ! i\<rparr>]"
      by (simp add: constructorStep_def)
    then show ?thesis
      unfolding step using "1.IH" [OF True] True by (simp add: upt_conv_Cons)
  next
    case False
    then have "constructorLoop ls ds i s = s"
      by (simp add: constructorLoop.simps [of ls ds i s])
    then show ?thesis using False "1.prems" by simp
  qed
qed

lemma constructorLoop_arrays:
  "length (options s) = i \<Longrightarrow> length (encryptedTallies s) = i \<Longrightarrow>
   length (clearTallies s) = i \<Longrightarrow> i \<le> length ls \<Longrightarrow>
   \<forall>e \<in> set (encryptedTallies s). plain e = 0 \<Longrightarrow>
   length (options (constructorLoop ls ds i s)) = length ls \<and>
   length (encryptedTallies (constructorLoop ls ds i s)) = length ls \<and>
   length (clearTallies (constructorLoop ls ds i s)) = length ls \<and>
   (\<forall>e \<in> set (encryptedTallies (constructorLoop ls ds i s)). plain e = 0)"
proof (induction ls ds i s rule: constructorLoop.induct)
  case (1 ls ds i s)
  show ?case
  proof (cases "i < length ls")
    case True
    let ?s1 = "constructorStep ls ds i s"
    have i_def: "i = length (encryptedTallies s)"
      using "1.prems"(2) by simp
    have enc1: "encryptedTallies ?s1 = encryptedTallies s @ [FHE_allow (asEuint32 0) (creator s)]"
      by (simp add: constructorStep_def i_def)
    have a: "length (options ?s1) = Suc i"
      using "1.prems"(1) by (simp add: constructorStep_def)
    have b: "length (encryptedTallies ?s1) = Suc i"
      using "1.prems"(2) by (simp add: constructorStep_def)
    have c: "length (clearTallies ?s1) = Suc i"
      using "1.prems"(3) by (simp add: constructorStep_def)
    have d: "Suc i \<le> length ls"
      using True by simp
    have e: "\<forall>e \<in> set (encryptedTallies ?s1). plain e = 0"
      using "1.prems"(5) by (auto simp: enc1 FHE_allow_def asEuint32_def)
    have step: "constructorLoop ls ds i s = constructorLoop ls ds (Suc i) ?s1"
      using True by (simp add: constructorLoop.simps [of ls ds i s])
    show ?thesis
      unfolding step using "1.IH" [OF True a b c d e] .
  next
    case False
    then have "constructorLoop ls ds i s = s"
      by (simp add: constructorLoop.simps [of ls ds i s])
    then show ?thesis using False "1.prems" by simp
  qed
qed

subsection \<open>Checked arithmetic\<close>

lemma no_wrap_less:
  fixes t d :: uint256
  assumes "d \<noteq> 0" "\<not> 2 ^ 256 \<le> unat t + unat d"
  shows "t < t + d"
proof -
  have "unat (t + d) = unat t + unat d"
    using assms(2) by (simp add: unat_add_lem [symmetric])
  moreover have "0 < unat d"
    using assms(1) by (simp add: unat_gt_0)
  ultimately show ?thesis
    by (simp add: word_less_nat_alt)
qed

lemma unat_succ:
  fixes v :: uint256
  assumes "v \<noteq> - 1"
  shows "unat (v + 1) = Suc (unat v)"
proof -
  have nz: "v + 1 \<noteq> 0"
    using assms max_word_wrap by blast
  then have "unat (v + 1 - 1) = unat (v + 1) - 1"
    by (rule unat_minus_one)
  moreover have "0 < unat (v + 1)"
    using nz by (simp add: unat_gt_0)
  ultimately show ?thesis by simp
qed

lemma uint32_of_nat_eq:
  fixes v :: uint32
  assumes "j < 2 ^ 32"
  shows "of_nat j = v \<longleftrightarrow> j = unat v"
proof
  assume "of_nat j = v"
  then have "unat v = unat (of_nat j :: uint32)" by simp
  also have "\<dots> = j" using assms by (simp add: unat_of_nat)
  finally show "j = unat v" by simp
next
  assume "j = unat v"
  then show "of_nat j = v" by simp
qed

lemma voters_bounded:
  fixes v :: uint256 and V :: "address set"
  assumes "unat v = card V" "a \<notin> V"
  shows "v \<noteq> - 1"
proof -
  have "V \<subset> UNIV" using assms(2) by blast
  then have "card V < card (UNIV :: address set)"
    by (intro psubset_card_mono) simp_all
  then have "unat v < 2 ^ 160"
    using assms(1) by (simp add: card_word)
  moreover have "(2 ^ 160 :: uint256) \<le> - 1"
    by (rule max_word_max)
  then have "unat (2 ^ 160 :: uint256) \<le> unat (- 1 :: uint256)"
    by (simp only: word_le_nat_alt)
  then have "2 ^ 160 \<le> unat (- 1 :: uint256)"
    by simp
  ultimately show ?thesis by auto
qed

section \<open>The entry points\<close>

subsection \<open>Transactions\<close>

lemma transact_Inr:
  "transact f s = (Inr r, s') \<longleftrightarrow> f s = (Inr r, s')"
  by (auto simp: transact_def split: prod.splits sum.splits)

lemma transact_Inl:
  "f s = (Inl e, s1) \<Longrightarrow> transact f s = (Inl e, s)"
  by (simp add: transact_def)

lemma transact_cases:
  obtains (reverted) e where "fst (f s) = Inl e" "transact f s = (Inl e, s)"
  | (committed) r where "f s = (Inr r, snd (f s))" "transact f s = (Inr r, snd (f s))"
  by (cases "f s"; cases "fst (f s)") (auto simp: transact_def)

subsection \<open>Outcomes of \<open>submitEncryptedVote\<close>\<close>

lemma submit_closed:
  "timestamp c < startTime s \<or> endTime s < timestamp c \<Longrightarrow>
   submitEncryptedVote cap c e p s = (Inl VotingClosed, s)"
  by (simp add: submitEncryptedVote_def)

lemma submit_voted:
  "startTime s \<le> timestamp c \<Longrightarrow> timestamp c \<le> endTime s \<Longrightarrow> hasVoted s (sender c) \<Longrightarrow>
   submitEncryptedVote cap c e p s = (Inl AlreadyVoted, s)"
  by (simp add: submitEncryptedVote_def not_less [symmetric])


lemma submit_accept:
  assumes "startTime s \<le> timestamp c" "timestamp c \<le> endTime s" "\<not> hasVoted s (sender c)"
    and "fromExternal cap (sender c) e p = Some v" "voterCount s \<noteq> - 1"
  shows "submitEncryptedVote cap c e p s = (Inr (), accepted c v s)"
  using assms
  by (simp add: submitEncryptedVote_def accepted_def Let_def voteLoop_fields not_less [symmetric])

lemma submit_Inr:
  assumes "submitEncryptedVote cap c e p s = (Inr r, s')"
  shows "startTime s \<le> timestamp c \<and> timestamp c \<le> endTime s \<and> \<not> hasVoted s (sender c) \<and>
     voterCount s \<noteq> - 1 \<and> (\<exists>v. fromExternal cap (sender c) e p = Some v \<and> s' = accepted c v s)"
  using assms
  by (auto simp: submitEncryptedVote_def accepted_def Let_def voteLoop_fields
        split: if_splits option.splits)

lemma submit_Inl:
  "submitEncryptedVote cap c e p s = (Inl err, s') \<Longrightarrow>
   err = ArithmeticPanic \<or> s' = s"
  by (auto simp: submitEncryptedVote_def Let_def split: if_splits option.splits)

lemma accepted_fields:
  "pollName (accepted c v s) = pollName s"
  "pollHeadline (accepted c v s) = pollHeadline s"
  "pollDescription (accepted c v s) = pollDescription s"
  "startTime (accepted c v s) = startTime s"
  "endTime (accepted c v s) = endTime s"
  "creator (accepted c v s) = creator s"
  "finalized (accepted c v s) = finalized s"
  "decryptionPending (accepted c v s) = decryptionPending s"
  "decryptionRequestId (accepted c v s) = decryptionRequestId s"
  "clearTallies (accepted c v s) = clearTallies s"
  "options (accepted c v s) = options s"
  "voterCount (accepted c v s) = voterCount s + 1"
  "hasVoted (accepted c v s) = (hasVoted s)(sender c := True)"
  "events (accepted c v s) = events s @ [VoteSubmitted (sender c)]"
  "encryptedTallies (accepted c v s) = encryptedTallies (voteLoop c (asEuint32 v) 0 s)"
  by (simp_all add: accepted_def voteLoop_fields)

lemma accepted_tallies:
  "length (encryptedTallies (accepted c v s)) = length (encryptedTallies s)"
  "j < length (encryptedTallies s) \<Longrightarrow>
   plain (encryptedTallies (accepted c v s) ! j) =
     plain (encryptedTallies s ! j) + (if of_nat j = v then 1 else 0)"
  by (simp_all add: accepted_fields length_voteLoop plain_voteLoop asEuint32_def)

lemma accepted_out_of_range:
  assumes "length (encryptedTallies s) \<le> unat v"
  shows "map plain (encryptedTallies (accepted c v s)) = map plain (encryptedTallies s)"
proof (rule nth_equalityI)
  show "length (map plain (encryptedTallies (accepted c v s))) = length (map plain (encryptedTallies s))"
    by (simp add: accepted_tallies)
next
  fix j assume "j < length (map plain (encryptedTallies (accepted c v s)))"
  then have j: "j < length (encryptedTallies s)"
    by (simp add: accepted_tallies)
  have "unat v < 2 ^ 32"
    using unsigned_less [of v, where 'a = nat] by simp
  then have "j < 2 ^ 32" "j \<noteq> unat v"
    using j assms by simp_all
  then have "of_nat j \<noteq> v"
    by (simp add: uint32_of_nat_eq)
  then show "map plain (encryptedTallies (accepted c v s)) ! j = map plain (encryptedTallies s) ! j"
    using j by (simp add: accepted_tallies)
qed

subsection \<open>Sequences of ballots\<close>

lemma votesFor_Nil [simp]: "votesFor cap [] i = 0"
  by (simp add: votesFor_def)

lemma votesFor_Cons:
  "votesFor cap (b # bs) i =
     (if ballotPlain cap b = Some (of_nat i) then 1 else 0) + votesFor cap bs i"
  by (simp add: votesFor_def)

lemma votesFor_le: "votesFor cap bs i \<le> length bs"
  by (simp add: votesFor_def)

lemma submitAll_Inr:
  "submitAll cap bs s = Inr s' \<Longrightarrow>
     length (encryptedTallies s') = length (encryptedTallies s) \<and>
     (\<forall>j < length (encryptedTallies s).
        plain (encryptedTallies s' ! j) = plain (encryptedTallies s ! j) + of_nat (votesFor cap bs j)) \<and>
     unat (voterCount s') = unat (voterCount s) + length bs \<and>
     finalized s' = finalized s \<and> decryptionPending s' = decryptionPending s \<and>
     clearTallies s' = clearTallies s \<and> options s' = options s"
proof (induction bs arbitrary: s)
  case Nil
  then show ?case by simp
next
  case (Cons b bs)
  obtain c e p where b: "b = (c, e, p)" by (cases b)
  from Cons.prems obtain r s1 where
    first: "transact (submitEncryptedVote cap c e p) s = (Inr r, s1)"
    and rest: "submitAll cap bs s1 = Inr s'"
    by (auto simp: b split: prod.splits sum.splits)
  from first have "submitEncryptedVote cap c e p s = (Inr r, s1)"
    by (simp add: transact_Inr)
  from submit_Inr [OF this] obtain v where
    v: "fromExternal cap (sender c) e p = Some v" and room: "voterCount s \<noteq> - 1"
    and s1: "s1 = accepted c v s"
    by auto
  have bp: "ballotPlain cap b = Some v"
    by (simp add: ballotPlain_def b v)
  note IH = Cons.IH [OF rest]
  have len1: "length (encryptedTallies s1) = length (encryptedTallies s)"
    by (simp add: s1 accepted_tallies)
  have "plain (encryptedTallies s' ! j) =
      plain (encryptedTallies s ! j) + of_nat (votesFor cap (b # bs) j)"
    if "j < length (encryptedTallies s)" for j
  proof -
    have "plain (encryptedTallies s' ! j) =
        plain (encryptedTallies s1 ! j) + of_nat (votesFor cap bs j)"
      using IH that len1 by simp
    also have "plain (encryptedTallies s1 ! j) =
        plain (encryptedTallies s ! j) + (if of_nat j = v then 1 else 0)"
      using that by (simp add: s1 accepted_tallies)
    finally show ?thesis
      by (auto simp: votesFor_Cons bp)
  qed
  moreover have "unat (voterCount s') = unat (voterCount s) + length (b # bs)"
    using IH room by (simp add: s1 accepted_fields unat_succ)
  ultimately show ?case
    using IH len1 by (simp add: s1 accepted_fields)
qed

lemma votesFor_sum:
  assumes "N \<le> 2 ^ 32"
    and "\<forall>b \<in> set bs. \<exists>v. ballotPlain cap b = Some v \<and> unat v < N"
  shows "(\<Sum>i<N. votesFor cap bs i) = length bs"
  using assms(2)
proof (induction bs)
  case Nil
  show ?case by simp
next
  case (Cons b bs)
  then obtain v where v: "ballotPlain cap b = Some v" "unat v < N"
    by auto
  have "(\<Sum>i<N. if ballotPlain cap b = Some (of_nat i) then 1 else 0) =
      (\<Sum>i<N. if i = unat v then 1 else (0 :: nat))"
  proof (rule sum.cong)
    fix i assume "i \<in> {..<N}"
    then have "i < 2 ^ 32" using assms(1) by simp
    then have "of_nat i = v \<longleftrightarrow> i = unat v" by (rule uint32_of_nat_eq)
    then show "(if ballotPlain cap b = Some (of_nat i) then 1 else 0) =
        (if i = unat v then 1 else (0 :: nat))"
      by (auto simp: v(1))
  qed simp
  also have "\<dots> = 1" using v(2) by simp
  finally have one: "(\<Sum>i<N. if ballotPlain cap b = Some (of_nat i) then 1 else 0) = (1 :: nat)" .
  have "(\<Sum>i<N. votesFor cap (b # bs) i) =
      (\<Sum>i<N. if ballotPlain cap b = Some (of_nat i) then 1 else 0) + (\<Sum>i<N. votesFor cap bs i)"
    by (simp add: votesFor_Cons sum.distrib)
  then show ?case using one Cons by simp
qed

subsection \<open>Outcomes of the constructor, the request and the callback\<close>

lemma constructor_Inr:
  assumes "constructor c name headline descr ls ds dur = Inr s"
  shows "2 \<le> length ls" "length ds = length ls" "dur \<noteq> 0"
    "unat (timestamp c) + unat dur < 2 ^ 256"
    "s = constructorLoop ls ds 0
       (blank\<lparr>pollName := name, pollHeadline := headline, pollDescription := descr,
          creator := sender c, startTime := timestamp c, endTime := timestamp c + dur\<rparr>)"
  using assms by (auto simp: constructor_def split: if_splits)

lemma request_Inr:
  assumes "requestEncryptedTallyDecryption cap c s = (Inr r, s')"
  shows "endTime s < timestamp c" "\<not> finalized s" "\<not> decryptionPending s"
    "s' = s\<lparr>decryptionPending := True, decryptionRequestId := r,
            events := events s @ [TallyDecryptionRequested r]\<rparr>"
    "r = requestDecryption cap (encryptedTallies s)"
  using assms
  by (auto simp: requestEncryptedTallyDecryption_def Let_def map_nth split: if_splits)

lemma callback_Inr:
  assumes "decryptionCallback cap c rid ct sg s = (Inr r, s')"
  shows "decryptionPending s" "rid = decryptionRequestId s" "checkSignatures cap rid ct sg"
    "\<exists>tallies. abi_decode cap ct = Some tallies \<and> length tallies = length (clearTallies s) \<and>
       s' = s\<lparr>clearTallies := tallies, finalized := True, decryptionPending := False,
              events := events s @ [TallyFinalized tallies]\<rparr>"
    "r"
proof -
  from assms show "decryptionPending s" "rid = decryptionRequestId s"
    "checkSignatures cap rid ct sg" "r"
    by (auto simp: decryptionCallback_def Let_def split: if_splits option.splits)
  from assms obtain tallies where t: "abi_decode cap ct = Some tallies"
    "length tallies = length (clearTallies s)"
    "s' = (storeLoop tallies 0 s)\<lparr>finalized := True, decryptionPending := False,
       events := events (storeLoop tallies 0 s) @ [TallyFinalized tallies]\<rparr>"
    by (auto simp: decryptionCallback_def Let_def split: if_splits option.splits)
  have "storeLoop tallies 0 s = s\<lparr>clearTallies := tallies\<rparr>"
    using storeLoop_frame [of tallies 0 s] clearTallies_storeLoop_all [OF t(2)] by simp
  with t show "\<exists>tallies. abi_decode cap ct = Some tallies \<and> length tallies = length (clearTallies s) \<and>
       s' = s\<lparr>clearTallies := tallies, finalized := True, decryptionPending := False,
              events := events s @ [TallyFinalized tallies]\<rparr>"
    by simp
qed

lemma request_still_open:
  "timestamp c \<le> endTime s \<Longrightarrow>
   requestEncryptedTallyDecryption cap c s = (Inl VotingStillOpen, s)"
  by (auto simp: requestEncryptedTallyDecryption_def)

lemma request_finalized:
  "endTime s < timestamp c \<Longrightarrow> finalized s \<Longrightarrow>
   requestEncryptedTallyDecryption cap c s = (Inl AlreadyFinalized, s)"
  by (auto simp: requestEncryptedTallyDecryption_def)

lemma request_pending:
  "endTime s < timestamp c \<Longrightarrow> \<not> finalized s \<Longrightarrow> decryptionPending s \<Longrightarrow>
   requestEncryptedTallyDecryption cap c s = (Inl DecryptionAlreadyPending, s)"
  by (auto simp: requestEncryptedTallyDecryption_def)

lemma request_Inl:
  "requestEncryptedTallyDecryption cap c s = (Inl e, s') \<Longrightarrow> s' = s"
  by (auto simp: requestEncryptedTallyDecryption_def Let_def split: if_splits)

lemma callback_Inl:
  "decryptionCallback cap c rid ct sg s = (Inl e, s') \<Longrightarrow> s' = s"
  by (auto simp: decryptionCallback_def Let_def split: if_splits option.splits)

lemma uint256_of_nat_small:
  "i < 2 ^ 32 \<Longrightarrow> unat (of_nat i :: uint256) = i"
proof -
  assume "i < 2 ^ 32"
  moreover have "(2 :: nat) ^ 32 < 2 ^ 256" by simp
  ultimately have "i < 2 ^ 256" by (rule less_trans)
  then show ?thesis by (simp add: unat_of_nat)
qed

lemma getClearTally_finalized:
  assumes "finalized s" "i < length (clearTallies s)" "length (clearTallies s) \<le> 2 ^ 32"
  shows "getClearTally s (of_nat i) = Inr (clearTallies s ! i)"
proof -
  have "i < 2 ^ 32" using assms(2,3) by simp
  then have "unat (of_nat i :: uint256) = i" by (rule uint256_of_nat_small)
  then show ?thesis using assms(1,2) by (auto simp: getClearTally_def)
qed

subsection \<open>Transactions as storage transformers\<close>

text \<open>What a transaction leaves behind, entry point by entry point.\<close>

lemma perform_Vote:
  "perform cap c (Vote e p) s = s \<or>
   (\<exists>v. fromExternal cap (sender c) e p = Some v \<and> \<not> hasVoted s (sender c) \<and>
      voterCount s \<noteq> - 1 \<and> perform cap c (Vote e p) s = accepted c v s)"
proof (cases rule: transact_cases [of "submitEncryptedVote cap c e p" s])
  case (reverted err)
  then show ?thesis by simp
next
  case (committed r)
  from submit_Inr [OF committed(1)] committed(2) show ?thesis by auto
qed

lemma perform_Request:
  "perform cap c Request s = s \<or>
   (\<not> finalized s \<and> \<not> decryptionPending s \<and> endTime s < timestamp c \<and>
    (\<exists>r. perform cap c Request s = s\<lparr>decryptionPending := True, decryptionRequestId := r,
            events := events s @ [TallyDecryptionRequested r]\<rparr>))"
proof (cases rule: transact_cases [of "requestEncryptedTallyDecryption cap c" s])
  case (reverted err)
  then show ?thesis by simp
next
  case (committed r)
  from request_Inr [OF committed(1)] committed(2) show ?thesis by auto
qed

lemma perform_Callback:
  "perform cap c (Callback rid ct sg) s = s \<or>
   (decryptionPending s \<and>
    (\<exists>tallies. length tallies = length (clearTallies s) \<and>
       perform cap c (Callback rid ct sg) s =
         s\<lparr>clearTallies := tallies, finalized := True, decryptionPending := False,
           events := events s @ [TallyFinalized tallies]\<rparr>))"
proof (cases rule: transact_cases [of "decryptionCallback cap c rid ct sg" s])
  case (reverted err)
  then show ?thesis by simp
next
  case (committed r)
  from callback_Inr [OF committed(1)] committed(2) show ?thesis by auto
qed

lemma perform_immutable:
  "pollName (perform cap c op s) = pollName s \<and>
   pollHeadline (perform cap c op s) = pollHeadline s \<and>
   pollDescription (perform cap c op s) = pollDescription s \<and>
   options (perform cap c op s) = options s \<and>
   startTime (perform cap c op s) = startTime s \<and>
   endTime (perform cap c op s) = endTime s \<and>
   creator (perform cap c op s) = creator s"
proof (cases op)
  case (Vote e p)
  then show ?thesis using perform_Vote [of cap c e p s] by (auto simp: accepted_fields)
next
  case Request
  then show ?thesis using perform_Request [of cap c s] by auto
next
  case (Callback rid ct sg)
  then show ?thesis using perform_Callback [of cap c rid ct sg s] by auto
qed

lemma performAll_immutable:
  "pollName (performAll cap ops s) = pollName s \<and>
   pollHeadline (performAll cap ops s) = pollHeadline s \<and>
   pollDescription (performAll cap ops s) = pollDescription s \<and>
   options (performAll cap ops s) = options s \<and>
   startTime (performAll cap ops s) = startTime s \<and>
   endTime (performAll cap ops s) = endTime s \<and>
   creator (performAll cap ops s) = creator s"
proof (induction ops arbitrary: s)
  case Nil
  show ?case by simp
next
  case (Cons x ops)
  obtain c op where x: "x = (c, op)" by (cases x)
  show ?case
    using Cons.IH [of "perform cap c op s"] perform_immutable [of cap c op s]
    by (simp add: x)
qed

lemma perform_finalized:
  assumes "finalized s" "\<not> decryptionPending s"
  shows "finalized (perform cap c op s) \<and> \<not> decryptionPending (perform cap c op s) \<and>
     clearTallies (perform cap c op s) = clearTallies s"
proof (cases op)
  case (Vote e p)
  then show ?thesis using perform_Vote [of cap c e p s] assms by (auto simp: accepted_fields)
next
  case Request
  then show ?thesis using perform_Request [of cap c s] assms by auto
next
  case (Callback rid ct sg)
  then show ?thesis using perform_Callback [of cap c rid ct sg s] assms by auto
qed

lemma performAll_finalized:
  assumes "finalized s" "\<not> decryptionPending s"
  shows "finalized (performAll cap ops s) \<and> \<not> decryptionPending (performAll cap ops s) \<and>
     clearTallies (performAll cap ops s) = clearTallies s"
  using assms
proof (induction ops arbitrary: s)
  case Nil
  then show ?case by simp
next
  case (Cons x ops)
  obtain c op where x: "x = (c, op)" by (cases x)
  have step: "finalized (perform cap c op s) \<and> \<not> decryptionPending (perform cap c op s) \<and>
     clearTallies (perform cap c op s) = clearTallies s"
    using Cons.prems by (rule perform_finalized)
  then show ?case
    using Cons.IH [of "perform cap c op s"] by (simp add: x)
qed

lemma finalized_only_by_callback:
  assumes "\<not> finalized s" "finalized (perform cap c op s)"
  shows "\<exists>rid ct sg. op = Callback rid ct sg \<and> decryptionPending s"
proof (cases op)
  case (Vote e p)
  then show ?thesis using perform_Vote [of cap c e p s] assms by (auto simp: accepted_fields)
next
  case Request
  then show ?thesis using perform_Request [of cap c s] assms by auto
next
  case (Callback rid ct sg)
  then show ?thesis using perform_Callback [of cap c rid ct sg s] assms by auto
qed

section \<open>The invariant of reachable storage\<close>

lemma consistent_deployed:
  assumes "constructor c name headline descr ls ds dur = Inr s"
  shows "consistent (timestamp c) s"
proof -
  note facts = constructor_Inr [OF assms]
  let ?s0 = "blank\<lparr>pollName := name, pollHeadline := headline, pollDescription := descr,
          creator := sender c, startTime := timestamp c, endTime := timestamp c + dur\<rparr>"
  have arrays: "length (options s) = length ls" "length (encryptedTallies s) = length ls"
    "length (clearTallies s) = length ls"
    using constructorLoop_arrays [of ?s0 0 ls ds] facts(5) by (simp_all add: blank_def)
  have "startTime s = timestamp c" "endTime s = timestamp c + dur" "\<not> finalized s"
    "\<not> decryptionPending s" "voterCount s = 0" "hasVoted s = (\<lambda>_. False)"
    by (simp_all add: facts(5) constructorLoop_fields blank_def)
  moreover have "timestamp c < timestamp c + dur"
    using facts(3,4) by (intro no_wrap_less) simp_all
  ultimately show ?thesis
    using arrays facts(1) by (simp add: consistent_def)
qed

lemma consistent_later:
  "consistent t s \<Longrightarrow> t \<le> t' \<Longrightarrow> consistent t' s"
  by (auto simp: consistent_def)

lemma consistent_accepted:
  assumes "consistent t s" "\<not> hasVoted s (sender c)" "voterCount s \<noteq> - 1"
  shows "consistent t (accepted c v s)"
proof -
  have "{a. ((hasVoted s)(sender c := True)) a} = insert (sender c) {a. hasVoted s a}"
    by auto
  then have "card {a. ((hasVoted s)(sender c := True)) a} = Suc (card {a. hasVoted s a})"
    using assms(2) by simp
  then show ?thesis
    using assms(1,3)
    by (simp add: consistent_def accepted_def voteLoop_fields length_voteLoop unat_succ)
qed

lemma consistent_perform:
  assumes "consistent t s" "t \<le> timestamp c"
  shows "consistent (timestamp c) (perform cap c op s)"
proof (cases op)
  case (Vote e p)
  show ?thesis
  proof (cases rule: transact_cases [of "submitEncryptedVote cap c e p" s])
    case (reverted err)
    then show ?thesis using assms Vote by (simp add: consistent_later)
  next
    case (committed r)
    from submit_Inr [OF committed(1)] obtain v where
      "\<not> hasVoted s (sender c)" "voterCount s \<noteq> - 1"
      "snd (submitEncryptedVote cap c e p s) = accepted c v s"
      by auto
    then show ?thesis
      using assms Vote committed(2) consistent_accepted [of t s c v]
      by (simp add: consistent_later)
  qed
next
  case Request
  show ?thesis
  proof (cases rule: transact_cases [of "requestEncryptedTallyDecryption cap c" s])
    case (reverted err)
    then show ?thesis using assms Request by (simp add: consistent_later)
  next
    case (committed r)
    note facts = request_Inr [OF committed(1)]
    have "perform cap c op s = s\<lparr>decryptionPending := True, decryptionRequestId := r,
            events := events s @ [TallyDecryptionRequested r]\<rparr>"
      using Request committed(2) facts(4) by simp
    then show ?thesis
      using assms(1) facts(1,2) by (simp add: consistent_def)
  qed
next
  case (Callback rid ct sg)
  show ?thesis
  proof (cases rule: transact_cases [of "decryptionCallback cap c rid ct sg" s])
    case (reverted err)
    then show ?thesis using assms Callback by (simp add: consistent_later)
  next
    case (committed r)
    from callback_Inr [OF committed(1)] obtain tallies where
      pend: "decryptionPending s" and len: "length tallies = length (clearTallies s)" and
      s': "snd (decryptionCallback cap c rid ct sg s) =
         s\<lparr>clearTallies := tallies, finalized := True, decryptionPending := False,
              events := events s @ [TallyFinalized tallies]\<rparr>"
      by auto
    have "endTime s < timestamp c"
      using assms pend by (auto simp: consistent_def)
    then show ?thesis
      using assms(1) Callback committed(2) s' len by (simp add: consistent_def)
  qed
qed

lemma reachable_consistent:
  "reachable cap t s \<Longrightarrow> consistent t s"
proof (induction rule: reachable.induct)
  case (deployed c name headline descr optionLabels optionDescriptions votingDurationSeconds s)
  then show ?case by (rule consistent_deployed)
next
  case (transacted t s c op)
  then show ?case by (simp add: consistent_perform)
qed

section \<open>The concrete deployment, evaluated\<close>

lemma demoPoll_deployed:
  "constructor (calling 1 1000) ''Poll'' ''Headline'' ''Description''
     [''X'', ''Y''] [''x'', ''y''] 3600 = Inr demoPoll"
  by (simp add: demoPoll_def constructor_def calling_def)

lemma demoPoll_eq:
  "demoPoll = \<lparr>pollName = ''Poll'', pollHeadline = ''Headline'', pollDescription = ''Description'',
     startTime = 1000, endTime = 4600, creator = 1, voterCount = 0, finalized = False,
     decryptionPending = False, decryptionRequestId = 0,
     encryptedTallies = [\<lparr>plain = 0, allowed = {1}\<rparr>, \<lparr>plain = 0, allowed = {1}\<rparr>],
     clearTallies = [0, 0],
     options = [\<lparr>label = ''X'', description = ''x''\<rparr>, \<lparr>label = ''Y'', description = ''y''\<rparr>],
     hasVoted = (\<lambda>_. False), events = []\<rparr>"
  by (simp add: demoPoll_def constructor_def calling_def blank_def constructorLoop.simps
        constructorStep_def FHE_allow_def asEuint32_def)

lemma votedPoll_eq:
  "votedPoll = demoPoll\<lparr>voterCount := 1,
     encryptedTallies := [\<lparr>plain = 1, allowed = {1, 2, 77}\<rparr>, \<lparr>plain = 0, allowed = {1, 2, 77}\<rparr>],
     hasVoted := (\<lambda>_. False)(2 := True), events := [VoteSubmitted 2]\<rparr>"
  by (simp add: votedPoll_def demoPoll_eq transact_def submitEncryptedVote_def
        calling_def demoCapability_def Let_def voteLoop.simps voteStep_def
        FHE_eq_def FHE_select_def FHE_add_def FHE_allow_def asEuint32_def insert_commute)

lemma pendingPoll_eq:
  "pendingPoll = demoPoll\<lparr>decryptionPending := True, decryptionRequestId := 2,
     events := [TallyDecryptionRequested 2]\<rparr>"
  by (simp add: pendingPoll_def demoPoll_eq transact_def requestEncryptedTallyDecryption_def
        calling_def demoCapability_def Let_def)

lemma finalPoll_eq:
  "finalPoll = pendingPoll\<lparr>finalized := True, decryptionPending := False,
     events := [TallyDecryptionRequested 2, TallyFinalized [0, 0]]\<rparr>"
  by (simp add: finalPoll_def pendingPoll_eq demoPoll_eq transact_def decryptionCallback_def
        calling_def demoCapability_def Let_def storeLoop.simps)

lemma reachable_demoPoll: "reachable demoCapability 1000 demoPoll"
  using reachable.deployed [OF demoPoll_deployed, of demoCapability] by (simp add: calling_def)

lemma reachable_votedPoll: "reachable demoCapability 2000 votedPoll"
  using reachable.transacted [OF reachable_demoPoll, of "calling 2 2000" "Vote 0 [1]"]
  by (simp add: calling_def votedPoll_def)

lemma reachable_pendingPoll: "reachable demoCapability 5000 pendingPoll"
  using reachable.transacted [OF reachable_demoPoll, of "calling 5 5000" Request]
  by (simp add: calling_def pendingPoll_def)

lemma reachable_finalPoll: "reachable demoCapability 6000 finalPoll"
  using reachable.transacted [OF reachable_pendingPoll, of "calling 6 6000" "Callback 2 [0, 0] [1]"]
  by (simp add: calling_def finalPoll_def)

lemma demoPoll_vote:
  "transact (submitEncryptedVote demoCapability (calling 2 2000) 0 [1]) demoPoll
     = (Inr (), votedPoll)"
  by (simp add: votedPoll_def transact_def submitEncryptedVote_def demoPoll_eq calling_def
        demoCapability_def Let_def voteLoop_fields)

lemma pendingPoll_callback:
  "transact (decryptionCallback demoCapability (calling 6 6000) 2 [0, 0] [1]) pendingPoll
     = (Inr True, finalPoll)"
  by (simp add: finalPoll_def transact_def decryptionCallback_def pendingPoll_eq demoPoll_eq
        demoCapability_def Let_def)

lemmas run_simps = transact_def submitEncryptedVote_def requestEncryptedTallyDecryption_def
  decryptionCallback_def calling_def demoCapability_def Let_def voteLoop.simps voteStep_def
  storeLoop.simps FHE_eq_def FHE_select_def FHE_add_def FHE_allow_def asEuint32_def insert_commute

lemma scenarioVoted_eq:
  "scenarioVoted = demoPoll\<lparr>voterCount := 3,
     encryptedTallies := [\<lparr>plain = 1, allowed = {1, 4, 77}\<rparr>, \<lparr>plain = 2, allowed = {1, 4, 77}\<rparr>],
     hasVoted := (\<lambda>_. False)(2 := True, 3 := True, 4 := True),
     events := [VoteSubmitted 2, VoteSubmitted 3, VoteSubmitted 4]\<rparr>"
  by (simp add: scenarioVoted_def scenarioBallots_def demoPoll_eq run_simps)

lemma scenarioVoted_run:
  "submitAll demoCapability scenarioBallots demoPoll = Inr scenarioVoted"
  by (simp add: scenarioVoted_def scenarioBallots_def demoPoll_eq run_simps)

lemma scenarioPending_eq:
  "scenarioPending = scenarioVoted\<lparr>decryptionPending := True, decryptionRequestId := 2,
     events := [VoteSubmitted 2, VoteSubmitted 3, VoteSubmitted 4, TallyDecryptionRequested 2]\<rparr>"
  by (simp add: scenarioPending_def scenarioVoted_eq demoPoll_eq run_simps)

lemma scenarioPending_run:
  "transact (requestEncryptedTallyDecryption demoCapability (calling 5 5000)) scenarioVoted
     = (Inr 2, scenarioPending)"
  by (simp add: scenarioPending_def scenarioVoted_eq demoPoll_eq run_simps)

lemma scenarioFinal_eq:
  "scenarioFinal = scenarioPending\<lparr>clearTallies := [1, 2], finalized := True,
     decryptionPending := False,
     events := [VoteSubmitted 2, VoteSubmitted 3, VoteSubmitted 4, TallyDecryptionRequested 2,
       TallyFinalized [1, 2]]\<rparr>"
  by (simp add: scenarioFinal_def scenarioPending_eq scenarioVoted_eq demoPoll_eq run_simps)

lemma scenarioFinal_run:
  "transact (decryptionCallback demoCapability (calling 6 6000) 2 [1, 2] [1]) scenarioPending
     = (Inr True, scenarioFinal)"
  by (simp add: scenarioFinal_def scenarioPending_eq scenarioVoted_eq demoPoll_eq run_simps)

lemma strayVoted_eq:
  "strayVoted = demoPoll\<lparr>voterCount := 2,
     encryptedTallies := [\<lparr>plain = 1, allowed = {1, 3, 77}\<rparr>, \<lparr>plain = 0, allowed = {1, 3, 77}\<rparr>],
     hasVoted := (\<lambda>_. False)(2 := True, 3 := True),
     events := [VoteSubmitted 2, VoteSubmitted 3]\<rparr>"
  by (simp add: strayVoted_def strayBallots_def demoPoll_eq run_simps)

lemma strayVoted_run:
  "submitAll demoCapability strayBallots demoPoll = Inr strayVoted"
  by (simp add: strayVoted_def strayBallots_def demoPoll_eq run_simps)

lemma strayPending_eq:
  "strayPending = strayVoted\<lparr>decryptionPending := True, decryptionRequestId := 2,
     events := [VoteSubmitted 2, VoteSubmitted 3, TallyDecryptionRequested 2]\<rparr>"
  by (simp add: strayPending_def strayVoted_eq demoPoll_eq run_simps)

lemma strayFinal_eq:
  "strayFinal = strayPending\<lparr>clearTallies := [1, 0], finalized := True,
     decryptionPending := False,
     events := [VoteSubmitted 2, VoteSubmitted 3, TallyDecryptionRequested 2,
       TallyFinalized [1, 0]]\<rparr>"
  by (simp add: strayFinal_def strayPending_eq strayVoted_eq demoPoll_eq run_simps)

lemma strayPending_run:
  "transact (requestEncryptedTallyDecryption demoCapability (calling 5 5000)) strayVoted
     = (Inr 2, strayPending)"
  by (simp add: strayPending_def strayVoted_eq demoPoll_eq run_simps)

lemma strayFinal_run:
  "transact (decryptionCallback demoCapability (calling 6 6000) 2 [1, 0] [1]) strayPending
     = (Inr True, strayFinal)"
  by (simp add: strayFinal_def strayPending_eq strayVoted_eq demoPoll_eq run_simps)

section \<open>The claims\<close>

text \<open>C1, as the code has it. A successful \<open>submitEncryptedVote\<close> had its input accepted
  as some plaintext \<open>v\<close>; it keeps the number of encrypted tallies, and tally \<open>i\<close> grows by one
  (in 32-bit arithmetic) exactly when \<open>uint32(i)\<close> equals \<open>v\<close>. Hence, for a poll of at most
  \<open>2^32\<close> options: when \<open>v\<close> is below the option count, the tally at index \<open>v\<close> is incremented by
  one and the others are unchanged; when \<open>v\<close> is the option count or more, the call succeeds all
  the same and every tally is unchanged.\<close>

theorem vote_increments:
  assumes "transact (submitEncryptedVote cap c e p) s = (Inr r, s')"
  shows "\<exists>v. fromExternal cap (sender c) e p = Some v \<and>
     length (encryptedTallies s') = length (encryptedTallies s) \<and>
     (\<forall>i < length (encryptedTallies s).
        plain (encryptedTallies s' ! i) =
          plain (encryptedTallies s ! i) + (if of_nat i = v then 1 else 0)) \<and>
     (unat v < length (encryptedTallies s) \<and> length (encryptedTallies s) \<le> 2 ^ 32 \<longrightarrow>
        (\<forall>i < length (encryptedTallies s).
           plain (encryptedTallies s' ! i) =
             (if i = unat v then plain (encryptedTallies s ! i) + 1
              else plain (encryptedTallies s ! i)))) \<and>
     (length (encryptedTallies s) \<le> unat v \<longrightarrow>
        (\<forall>i < length (encryptedTallies s).
           plain (encryptedTallies s' ! i) = plain (encryptedTallies s ! i)))"
proof -
  have "submitEncryptedVote cap c e p s = (Inr r, s')"
    using assms by (simp add: transact_Inr)
  from submit_Inr [OF this] obtain v where
    v: "fromExternal cap (sender c) e p = Some v" and s': "s' = accepted c v s"
    by auto
  let ?N = "length (encryptedTallies s)"
  have each: "plain (encryptedTallies s' ! i) =
      plain (encryptedTallies s ! i) + (if of_nat i = v then 1 else 0)" if "i < ?N" for i
    using that by (simp add: s' accepted_tallies)
  have inside: "plain (encryptedTallies s' ! i) =
      (if i = unat v then plain (encryptedTallies s ! i) + 1 else plain (encryptedTallies s ! i))"
    if "?N \<le> 2 ^ 32" "i < ?N" for i
  proof -
    have "i < 2 ^ 32" using that by simp
    then have "of_nat i = v \<longleftrightarrow> i = unat v" by (rule uint32_of_nat_eq)
    then show ?thesis using each [OF that(2)] by simp
  qed
  have outside: "plain (encryptedTallies s' ! i) = plain (encryptedTallies s ! i)"
    if "?N \<le> unat v" "i < ?N" for i
  proof -
    have "map plain (encryptedTallies s') ! i = map plain (encryptedTallies s) ! i"
      using that(1) by (simp only: s' accepted_out_of_range)
    then show ?thesis using that(2) by (simp add: s' accepted_tallies)
  qed
  show ?thesis
    using v each inside outside by (intro exI [of _ v]) (simp add: s' accepted_tallies)
qed

theorem vote_increments_witness:
  "map plain (encryptedTallies votedPoll) = [1, 0] \<and>
   map plain (encryptedTallies
     (snd (transact (submitEncryptedVote demoCapability (calling 3 2500) 1 [1]) votedPoll))) = [1, 1] \<and>
   map plain (encryptedTallies
     (snd (transact (submitEncryptedVote demoCapability (calling 3 2500) 2 [1]) votedPoll))) = [1, 0]"
proof -
  have v: "encryptedTallies votedPoll = [\<lparr>plain = 1, allowed = {1, 2, 77}\<rparr>, \<lparr>plain = 0, allowed = {1, 2, 77}\<rparr>]"
    by (simp add: votedPoll_eq)
  have ok: "\<exists>s'. transact (submitEncryptedVote demoCapability (calling 3 2500) h [1]) votedPoll
      = (Inr (), s')" for h
    by (simp add: transact_def submitEncryptedVote_def votedPoll_eq demoPoll_eq calling_def
          demoCapability_def Let_def voteLoop_fields)
  have plain1: "fromExternal demoCapability (sender (calling 3 2500)) 1 [1] = Some 1"
    and plain2: "fromExternal demoCapability (sender (calling 3 2500)) 2 [1] = Some 2"
    by (simp_all add: demoCapability_def)
  obtain s1 where s1: "transact (submitEncryptedVote demoCapability (calling 3 2500) 1 [1]) votedPoll
      = (Inr (), s1)"
    using ok by blast
  obtain s2 where s2: "transact (submitEncryptedVote demoCapability (calling 3 2500) 2 [1]) votedPoll
      = (Inr (), s2)"
    using ok by blast
  from vote_increments [OF s1] plain1
  have "length (encryptedTallies s1) = 2 \<and> plain (encryptedTallies s1 ! 0) = 1 \<and>
      plain (encryptedTallies s1 ! 1) = 1"
    by (simp add: v)
  then have r1: "map plain (encryptedTallies s1) = [1, 1]"
    by (cases "encryptedTallies s1"; simp; cases "tl (encryptedTallies s1)"; simp) 
  from vote_increments [OF s2] plain2
  have "length (encryptedTallies s2) = 2 \<and> plain (encryptedTallies s2 ! 0) = 1 \<and>
      plain (encryptedTallies s2 ! 1) = 0"
    by (simp add: v)
  then have r2: "map plain (encryptedTallies s2) = [1, 0]"
    by (cases "encryptedTallies s2"; simp; cases "tl (encryptedTallies s2)"; simp)
  show ?thesis
    using r1 r2 by (simp add: s1 s2 v)
qed

text \<open>The claim as stated fails for an index that is not an option: on the poll with options 0
  and 1 in which identity 2 has voted, identity 4 submits the encrypted index 9; the call
  succeeds and the tallies are 1 and 0 before and after, so no counter was incremented.\<close>

theorem vote_increments_counterexample:
  "reachable demoCapability 2000 votedPoll \<and>
   fst (transact (submitEncryptedVote demoCapability (calling 4 3000) 9 [1]) votedPoll) = Inr () \<and>
   map plain (encryptedTallies votedPoll) = [1, 0] \<and>
   map plain (encryptedTallies
     (snd (transact (submitEncryptedVote demoCapability (calling 4 3000) 9 [1]) votedPoll))) = [1, 0]"
  using reachable_votedPoll
  by (simp add: votedPoll_eq demoPoll_eq calling_def transact_def submitEncryptedVote_def
        demoCapability_def Let_def voteLoop_fields voteLoop.simps voteStep_def
        FHE_eq_def FHE_select_def FHE_add_def FHE_allow_def asEuint32_def)

text \<open>C2. Deploy a poll with \<open>N\<close> options, let \<open>k\<close> ballots be accepted one after the
  other, let the decryption be requested and the callback be accepted. Then \<open>voterCount\<close> is
  \<open>k\<close>. When the ballots are votes for options (every encrypted index is below \<open>N\<close>) and the
  payload of the callback is the decryption of the encrypted tallies, \<open>getClearTally(i)\<close>
  returns, for each option, the number of ballots cast for it, and these numbers add up to
  exactly \<open>k\<close>. The counters and the compared indices are 32-bit values, so the tallies are
  stated for \<open>N\<close> at most \<open>2^32\<close> and \<open>k\<close> below \<open>2^32\<close>.\<close>

theorem tally_conservation:
  assumes deploy: "constructor c0 n h d ls ds dur = Inr s0"
    and votes: "submitAll cap ballots s0 = Inr s1"
    and request: "transact (requestEncryptedTallyDecryption cap cr) s1 = (Inr rid, s2)"
    and callback: "transact (decryptionCallback cap cc rid' ct sg) s2 = (Inr ok, s3)"
  shows "unat (voterCount s3) = length ballots \<and>
     (length ls \<le> 2 ^ 32 \<and> length ballots < 2 ^ 32 \<and>
      (\<forall>b \<in> set ballots. \<exists>v. ballotPlain cap b = Some v \<and> unat v < length ls) \<and>
      abi_decode cap ct = Some (map plain (encryptedTallies s2)) \<longrightarrow>
        map (\<lambda>i. getClearTally s3 (of_nat i)) [0 ..< length ls] = map Inr (clearTallies s3) \<and>
        (\<forall>i < length ls. unat (clearTallies s3 ! i) = votesFor cap ballots i) \<and>
        sum_list (map unat (clearTallies s3)) = length ballots)"
proof -
  let ?N = "length ls"
  note ctor = constructor_Inr [OF deploy]
  let ?init = "blank\<lparr>pollName := n, pollHeadline := h, pollDescription := d,
      creator := sender c0, startTime := timestamp c0, endTime := timestamp c0 + dur\<rparr>"
  have arrays: "length (encryptedTallies s0) = ?N"
    "\<forall>e \<in> set (encryptedTallies s0). plain e = 0"
    using constructorLoop_arrays [of ?init 0 ls ds] ctor(5) by (simp_all add: blank_def)
  have count0: "voterCount s0 = 0"
    by (simp add: ctor(5) constructorLoop_fields blank_def)
  note V = submitAll_Inr [OF votes]
  have len1: "length (encryptedTallies s1) = ?N"
    using V arrays(1) by simp
  have plain1: "plain (encryptedTallies s1 ! i) = of_nat (votesFor cap ballots i)" if "i < ?N" for i
  proof -
    have "plain (encryptedTallies s0 ! i) = 0"
      using arrays that by simp
    then show ?thesis using V arrays(1) that by simp
  qed
  have count1: "unat (voterCount s1) = length ballots"
    using V count0 by simp
  have "requestEncryptedTallyDecryption cap cr s1 = (Inr rid, s2)"
    using request by (simp add: transact_Inr)
  note R = request_Inr [OF this]
  have s2: "encryptedTallies s2 = encryptedTallies s1" "voterCount s2 = voterCount s1"
    by (simp_all add: R(4))
  have "decryptionCallback cap cc rid' ct sg s2 = (Inr ok, s3)"
    using callback by (simp add: transact_Inr)
  from callback_Inr(4) [OF this] obtain tallies where
    decoded: "abi_decode cap ct = Some tallies"
    and s3: "s3 = s2\<lparr>clearTallies := tallies, finalized := True, decryptionPending := False,
      events := events s2 @ [TallyFinalized tallies]\<rparr>"
    by auto
  have fin: "finalized s3" and count3: "voterCount s3 = voterCount s1"
    by (simp_all add: s3 s2)
  have voters: "unat (voterCount s3) = length ballots"
    by (simp add: count3 count1)
  have tallies: "map (\<lambda>i. getClearTally s3 (of_nat i)) [0 ..< ?N] = map Inr (clearTallies s3) \<and>
      (\<forall>i < ?N. unat (clearTallies s3 ! i) = votesFor cap ballots i) \<and>
      sum_list (map unat (clearTallies s3)) = length ballots"
    if options: "?N \<le> 2 ^ 32" and few: "length ballots < 2 ^ 32"
      and inrange: "\<forall>b \<in> set ballots. \<exists>v. ballotPlain cap b = Some v \<and> unat v < ?N"
      and honest: "abi_decode cap ct = Some (map plain (encryptedTallies s2))"
  proof -
    have clear: "clearTallies s3 = map plain (encryptedTallies s1)"
      using decoded honest by (simp add: s3 s2)
    have len3: "length (clearTallies s3) = ?N"
      by (simp add: clear len1)
    have each: "unat (clearTallies s3 ! i) = votesFor cap ballots i" if "i < ?N" for i
    proof -
      have "votesFor cap ballots i < 2 ^ 32"
        using votesFor_le [of cap ballots i] few by simp
      then have "unat (of_nat (votesFor cap ballots i) :: uint32) = votesFor cap ballots i"
        by (simp add: unat_of_nat)
      then show ?thesis
        using that by (simp add: clear len1 plain1)
    qed
    have "map (\<lambda>i. getClearTally s3 (of_nat i)) [0 ..< ?N] =
        map (\<lambda>i. Inr (clearTallies s3 ! i)) [0 ..< ?N]"
      using fin len3 options by (simp add: getClearTally_finalized)
    also have "\<dots> = map Inr (map (\<lambda>i. clearTallies s3 ! i) [0 ..< length (clearTallies s3)])"
      by (simp add: len3)
    also have "\<dots> = map Inr (clearTallies s3)"
      by (simp only: map_nth)
    finally have reads: "map (\<lambda>i. getClearTally s3 (of_nat i)) [0 ..< ?N] = map Inr (clearTallies s3)" .
    have "map unat (clearTallies s3) =
        map unat (map (\<lambda>i. clearTallies s3 ! i) [0 ..< length (clearTallies s3)])"
      by (simp only: map_nth)
    also have "\<dots> = map (\<lambda>i. unat (clearTallies s3 ! i)) [0 ..< length (clearTallies s3)]"
      by (simp only: map_map o_def)
    also have "\<dots> = map (votesFor cap ballots) [0 ..< ?N]"
      using each by (simp add: len3)
    finally have "sum_list (map unat (clearTallies s3)) =
        sum_list (map (votesFor cap ballots) [0 ..< ?N])"
      by simp
    also have "\<dots> = (\<Sum>i<?N. votesFor cap ballots i)"
      by (simp add: interv_sum_list_conv_sum_set_nat atLeast0LessThan)
    also have "\<dots> = length ballots"
      using options inrange by (rule votesFor_sum)
    finally have total: "sum_list (map unat (clearTallies s3)) = length ballots" .
    show ?thesis
      using reads each total by simp
  qed
  show ?thesis
    using voters tallies by blast
qed

theorem tally_conservation_witness:
  "getClearTally scenarioFinal 0 = Inr 1 \<and> getClearTally scenarioFinal 1 = Inr 2 \<and>
   sum_list (map unat (clearTallies scenarioFinal)) = 3 \<and>
   unat (voterCount scenarioFinal) = 3 \<and> length scenarioBallots = 3 \<and>
   unat (voterCount strayFinal) = 2 \<and> length strayBallots = 2"
proof -
  have small: "length [''X'', ''Y''] \<le> 2 ^ 32" "length scenarioBallots < 2 ^ 32"
    by (simp_all add: scenarioBallots_def)
  have inrange: "\<forall>b \<in> set scenarioBallots.
      \<exists>v. ballotPlain demoCapability b = Some v \<and> unat v < length [''X'', ''Y'']"
    by (simp add: scenarioBallots_def ballotPlain_def demoCapability_def calling_def)
  have honest: "abi_decode demoCapability [1, 2] = Some (map plain (encryptedTallies scenarioPending))"
    by (simp add: scenarioPending_eq scenarioVoted_eq demoCapability_def)
  from tally_conservation [OF demoPoll_deployed scenarioVoted_run scenarioPending_run
      scenarioFinal_run] small inrange honest
  have T: "unat (voterCount scenarioFinal) = length scenarioBallots \<and>
      map (\<lambda>i. getClearTally scenarioFinal (of_nat i)) [0 ..< length [''X'', ''Y'']]
        = map Inr (clearTallies scenarioFinal) \<and>
      sum_list (map unat (clearTallies scenarioFinal)) = length scenarioBallots"
    by blast
  from tally_conservation [OF demoPoll_deployed strayVoted_run strayPending_run strayFinal_run]
  have S: "unat (voterCount strayFinal) = length strayBallots"
    by blast
  have "map (\<lambda>i. getClearTally scenarioFinal (of_nat i)) [0 ..< length [''X'', ''Y'']]
      = [getClearTally scenarioFinal 0, getClearTally scenarioFinal 1]"
    by (simp add: upt_conv_Cons)
  moreover have "clearTallies scenarioFinal = [1, 2]"
    by (simp add: scenarioFinal_eq)
  ultimately show ?thesis
    using T S by (simp add: scenarioBallots_def strayBallots_def)
qed

text \<open>C3. \<open>submitEncryptedVote\<close> has no range check on the encrypted index: in every reachable
  storage, a ballot inside the window from an identity that has not voted, whose accepted
  plaintext is the option count or more, succeeds; it sets the sender's flag, increments
  \<open>voterCount\<close> by one and leaves the plaintext of every encrypted tally as it was, so that
  \<open>voterCount\<close> then strictly exceeds the sum of the tallies if it was not below it before.\<close>

theorem out_of_range_ballot:
  assumes "reachable cap t s"
    and "startTime s \<le> timestamp c" and "timestamp c \<le> endTime s"
    and "\<not> hasVoted s (sender c)"
    and "fromExternal cap (sender c) e p = Some v"
    and "length (options s) \<le> unat v"
  shows "\<exists>s'. transact (submitEncryptedVote cap c e p) s = (Inr (), s') \<and>
     hasVoted s' (sender c) \<and> voterCount s' = voterCount s + 1 \<and>
     unat (voterCount s') = unat (voterCount s) + 1 \<and>
     length (encryptedTallies s') = length (options s) \<and>
     map plain (encryptedTallies s') = map plain (encryptedTallies s) \<and>
     (sum_list (map unat (map plain (encryptedTallies s))) \<le> unat (voterCount s) \<longrightarrow>
        sum_list (map unat (map plain (encryptedTallies s'))) < unat (voterCount s'))"
proof -
  have inv: "consistent t s"
    using assms(1) by (rule reachable_consistent)
  then have count: "unat (voterCount s) = card {a. hasVoted s a}"
    and len: "length (encryptedTallies s) = length (options s)"
    by (simp_all add: consistent_def)
  have "sender c \<notin> {a. hasVoted s a}"
    using assms(4) by simp
  with count have room: "voterCount s \<noteq> - 1"
    by (rule voters_bounded)
  with assms(2-5) have "submitEncryptedVote cap c e p s = (Inr (), accepted c v s)"
    by (rule submit_accept)
  then have run: "transact (submitEncryptedVote cap c e p) s = (Inr (), accepted c v s)"
    by (simp add: transact_Inr)
  have same: "map plain (encryptedTallies (accepted c v s)) = map plain (encryptedTallies s)"
    using assms(6) len by (intro accepted_out_of_range) simp
  have count': "unat (voterCount (accepted c v s)) = unat (voterCount s) + 1"
    using room by (simp add: accepted_fields unat_succ)
  show ?thesis
  proof (intro exI [of _ "accepted c v s"] conjI impI)
    show "transact (submitEncryptedVote cap c e p) s = (Inr (), accepted c v s)"
      by (rule run)
    show "hasVoted (accepted c v s) (sender c)"
      by (simp add: accepted_fields)
    show "voterCount (accepted c v s) = voterCount s + 1"
      by (simp add: accepted_fields)
    show "unat (voterCount (accepted c v s)) = unat (voterCount s) + 1"
      by (rule count')
    show "length (encryptedTallies (accepted c v s)) = length (options s)"
      using len by (simp add: accepted_tallies)
    show "map plain (encryptedTallies (accepted c v s)) = map plain (encryptedTallies s)"
      by (rule same)
    assume "sum_list (map unat (map plain (encryptedTallies s))) \<le> unat (voterCount s)"
    then show "sum_list (map unat (map plain (encryptedTallies (accepted c v s))))
        < unat (voterCount (accepted c v s))"
      unfolding same count' by simp
  qed
qed

theorem out_of_range_ballot_witness:
  "\<exists>s'. transact (submitEncryptedVote demoCapability (calling 3 2000) 5 [1]) demoPoll = (Inr (), s') \<and>
     hasVoted s' 3 \<and> unat (voterCount s') = 1 \<and>
     map plain (encryptedTallies s') = [0, 0] \<and>
     sum_list (map unat (map plain (encryptedTallies s'))) < unat (voterCount s')"
proof -
  have h: "startTime demoPoll \<le> timestamp (calling 3 2000)"
    "timestamp (calling 3 2000) \<le> endTime demoPoll"
    "\<not> hasVoted demoPoll (sender (calling 3 2000))"
    "fromExternal demoCapability (sender (calling 3 2000)) 5 [1] = Some 5"
    "length (options demoPoll) \<le> unat (5 :: uint32)"
    by (simp_all add: demoPoll_eq calling_def demoCapability_def)
  have v: "sender (calling 3 2000) = 3" "unat (voterCount demoPoll) = 0"
    "map plain (encryptedTallies demoPoll) = [0, 0]"
    by (simp_all add: demoPoll_eq calling_def)
  from out_of_range_ballot [OF reachable_demoPoll h] obtain s' where
    "transact (submitEncryptedVote demoCapability (calling 3 2000) 5 [1]) demoPoll = (Inr (), s')"
    "hasVoted s' (sender (calling 3 2000))"
    "unat (voterCount s') = unat (voterCount demoPoll) + 1"
    "map plain (encryptedTallies s') = map plain (encryptedTallies demoPoll)"
    by blast
  then show ?thesis
    by (intro exI [of _ s']) (simp add: v)
qed

text \<open>C4, as the code has it. A further ballot from an identity that has already voted
  fails, and the revert comes before any write: the working storage at the revert is the
  storage before the call, so no encrypted tally, flag or counter was touched. The error is
  \<open>AlreadyVoted\<close> when the call is made inside the voting window; outside the window the
  earlier check answers \<open>VotingClosed\<close>. Conversely a successful ballot comes from an identity
  that had not voted, sets its flag and increments the voter count by exactly one.\<close>

theorem double_vote:
  "(hasVoted s (sender c) \<longrightarrow>
      submitEncryptedVote cap c e p s =
        (Inl (if timestamp c < startTime s \<or> endTime s < timestamp c then VotingClosed
              else AlreadyVoted), s) \<and>
      transact (submitEncryptedVote cap c e p) s =
        (Inl (if timestamp c < startTime s \<or> endTime s < timestamp c then VotingClosed
              else AlreadyVoted), s)) \<and>
   (transact (submitEncryptedVote cap c e p) s = (Inr r, s') \<longrightarrow>
      \<not> hasVoted s (sender c) \<and> hasVoted s' (sender c) \<and>
      voterCount s' = voterCount s + 1 \<and> unat (voterCount s') = unat (voterCount s) + 1)"
proof (intro conjI impI)
  assume voted: "hasVoted s (sender c)"
  show body: "submitEncryptedVote cap c e p s =
        (Inl (if timestamp c < startTime s \<or> endTime s < timestamp c then VotingClosed
              else AlreadyVoted), s)"
    using voted by (simp add: submitEncryptedVote_def)
  show "transact (submitEncryptedVote cap c e p) s =
        (Inl (if timestamp c < startTime s \<or> endTime s < timestamp c then VotingClosed
              else AlreadyVoted), s)"
    using body by (rule transact_Inl)
next
  assume "transact (submitEncryptedVote cap c e p) s = (Inr r, s')"
  then have "submitEncryptedVote cap c e p s = (Inr r, s')"
    by (simp add: transact_Inr)
  from submit_Inr [OF this] obtain v where
    f: "\<not> hasVoted s (sender c)" "voterCount s \<noteq> - 1" "s' = accepted c v s"
    by auto
  show "\<not> hasVoted s (sender c)" by (rule f(1))
  show "hasVoted s' (sender c)" by (simp add: f(3) accepted_fields)
  show "voterCount s' = voterCount s + 1" by (simp add: f(3) accepted_fields)
  show "unat (voterCount s') = unat (voterCount s) + 1"
    using f(2) by (simp add: f(3) accepted_fields unat_succ)
qed

theorem double_vote_witness:
  "transact (submitEncryptedVote demoCapability (calling 2 3000) 1 [1]) votedPoll
     = (Inl AlreadyVoted, votedPoll) \<and>
   submitEncryptedVote demoCapability (calling 2 3000) 1 [1] votedPoll
     = (Inl AlreadyVoted, votedPoll) \<and>
   \<not> hasVoted demoPoll 2 \<and> hasVoted votedPoll 2 \<and> voterCount votedPoll = voterCount demoPoll + 1"
proof -
  have a: "hasVoted votedPoll (sender (calling 2 3000))"
    "\<not> (timestamp (calling 2 3000) < startTime votedPoll \<or> endTime votedPoll < timestamp (calling 2 3000))"
    by (simp_all add: votedPoll_eq demoPoll_eq calling_def)
  note b = demoPoll_vote
  have c: "sender (calling 2 2000) = 2" by (simp add: calling_def)
  from double_vote [of votedPoll "calling 2 3000" demoCapability 1 "[1]"] a
  have again: "submitEncryptedVote demoCapability (calling 2 3000) 1 [1] votedPoll
       = (Inl AlreadyVoted, votedPoll) \<and>
     transact (submitEncryptedVote demoCapability (calling 2 3000) 1 [1]) votedPoll
       = (Inl AlreadyVoted, votedPoll)"
    by simp
  from double_vote [of demoPoll "calling 2 2000" demoCapability 0 "[1]" "()" votedPoll] b
  have "\<not> hasVoted demoPoll (sender (calling 2 2000)) \<and>
     hasVoted votedPoll (sender (calling 2 2000)) \<and> voterCount votedPoll = voterCount demoPoll + 1"
    by blast
  with again show ?thesis by (simp only: c) blast
qed

text \<open>The claim as stated fails after the window: identity 2 has voted, calls again at time
  5000 (the window closed at 4600) and gets \<open>VotingClosed\<close>, not \<open>AlreadyVoted\<close>.\<close>

theorem double_vote_counterexample:
  "reachable demoCapability 2000 votedPoll \<and> hasVoted votedPoll (sender (calling 2 5000)) \<and>
   transact (submitEncryptedVote demoCapability (calling 2 5000) 0 [1]) votedPoll
     = (Inl VotingClosed, votedPoll)"
  using reachable_votedPoll
  by (simp add: votedPoll_eq demoPoll_eq calling_def transact_def submitEncryptedVote_def)

text \<open>C5. After a successful \<open>decryptionCallback\<close> the poll is finalised and no request is
  pending; after any further sequence of transactions a callback with any request identifier
  fails with \<open>UnexpectedCallback\<close> without a write, the clear tallies are those of the first
  callback, the poll is still finalised and still has no request pending. A transaction that
  turns \<open>finalized\<close> from false to true is a callback on a pending request.\<close>

theorem finalize_once:
  assumes "transact (decryptionCallback cap c1 rid1 ct1 sg1) s = (Inr ok, s1)"
  shows "finalized s1 \<and> \<not> decryptionPending s1 \<and>
     decryptionCallback cap c2 rid2 ct2 sg2 (performAll cap ops s1)
       = (Inl UnexpectedCallback, performAll cap ops s1) \<and>
     transact (decryptionCallback cap c2 rid2 ct2 sg2) (performAll cap ops s1)
       = (Inl UnexpectedCallback, performAll cap ops s1) \<and>
     clearTallies (performAll cap ops s1) = clearTallies s1 \<and>
     finalized (performAll cap ops s1) \<and> \<not> decryptionPending (performAll cap ops s1) \<and>
     (\<not> finalized s0 \<and> finalized (perform cap c op s0) \<longrightarrow>
        (\<exists>rid ct sg. op = Callback rid ct sg \<and> decryptionPending s0))"
proof -
  have "decryptionCallback cap c1 rid1 ct1 sg1 s = (Inr ok, s1)"
    using assms by (simp add: transact_Inr)
  from callback_Inr(4) [OF this] have fin: "finalized s1" "\<not> decryptionPending s1"
    by auto
  then have later: "finalized (performAll cap ops s1) \<and> \<not> decryptionPending (performAll cap ops s1) \<and>
     clearTallies (performAll cap ops s1) = clearTallies s1"
    by (rule performAll_finalized)
  then have body: "decryptionCallback cap c2 rid2 ct2 sg2 (performAll cap ops s1)
       = (Inl UnexpectedCallback, performAll cap ops s1)"
    by (simp add: decryptionCallback_def)
  then have "transact (decryptionCallback cap c2 rid2 ct2 sg2) (performAll cap ops s1)
       = (Inl UnexpectedCallback, performAll cap ops s1)"
    by (rule transact_Inl)
  then show ?thesis
    using fin later body finalized_only_by_callback [of s0 cap c op] by blast
qed

theorem finalize_once_witness:
  "finalized finalPoll \<and> \<not> decryptionPending finalPoll \<and>
   transact (decryptionCallback demoCapability (calling 6 6100) 2 [5, 5] [1]) finalPoll
     = (Inl UnexpectedCallback, finalPoll) \<and>
   transact (decryptionCallback demoCapability (calling 6 7000) 2 [5, 5] [1])
      (performAll demoCapability [(calling 3 6500, Request), (calling 4 6600, Vote 1 [1])] finalPoll)
     = (Inl UnexpectedCallback,
        performAll demoCapability [(calling 3 6500, Request), (calling 4 6600, Vote 1 [1])] finalPoll) \<and>
   clearTallies (performAll demoCapability [(calling 3 6500, Request), (calling 4 6600, Vote 1 [1])] finalPoll)
     = clearTallies finalPoll"
proof -
  from finalize_once [OF pendingPoll_callback, of "calling 6 6100" 2 "[5, 5]" "[1]" "[]"]
    finalize_once [OF pendingPoll_callback, of "calling 6 7000" 2 "[5, 5]" "[1]"
      "[(calling 3 6500, Request), (calling 4 6600, Vote 1 [1])]"]
  show ?thesis by (simp only: performAll.simps) blast
qed

text \<open>C6. A ballot submitted at a timestamp strictly before \<open>startTime\<close> or strictly after
  \<open>endTime\<close> fails with \<open>VotingClosed\<close> (and nothing was written before the revert). At
  every timestamp in the window, both ends included, a ballot with an accepted input proof from
  an identity that has not voted succeeds, in every storage the contract can reach.\<close>

theorem window_gating:
  "(timestamp c < startTime s \<or> endTime s < timestamp c \<longrightarrow>
      submitEncryptedVote cap c e p s = (Inl VotingClosed, s) \<and>
      transact (submitEncryptedVote cap c e p) s = (Inl VotingClosed, s)) \<and>
   (reachable cap t s \<and> startTime s \<le> timestamp c \<and> timestamp c \<le> endTime s \<and>
    \<not> hasVoted s (sender c) \<and> fromExternal cap (sender c) e p = Some v \<longrightarrow>
      (\<exists>s'. transact (submitEncryptedVote cap c e p) s = (Inr (), s')))"
proof (intro conjI impI)
  assume "timestamp c < startTime s \<or> endTime s < timestamp c"
  then show "submitEncryptedVote cap c e p s = (Inl VotingClosed, s)"
    by (rule submit_closed)
  then show "transact (submitEncryptedVote cap c e p) s = (Inl VotingClosed, s)"
    by (rule transact_Inl)
next
  assume a: "reachable cap t s \<and> startTime s \<le> timestamp c \<and> timestamp c \<le> endTime s \<and>
    \<not> hasVoted s (sender c) \<and> fromExternal cap (sender c) e p = Some v"
  then have r: "reachable cap t s" and w: "startTime s \<le> timestamp c" "timestamp c \<le> endTime s"
    and nv: "\<not> hasVoted s (sender c)" and v: "fromExternal cap (sender c) e p = Some v"
    by blast+
  from r have "consistent t s" by (rule reachable_consistent)
  then have "unat (voterCount s) = card {a. hasVoted s a}"
    by (simp add: consistent_def)
  moreover have "sender c \<notin> {a. hasVoted s a}"
    using nv by simp
  ultimately have "voterCount s \<noteq> - 1"
    by (rule voters_bounded)
  with w nv v have "submitEncryptedVote cap c e p s = (Inr (), accepted c v s)"
    by (rule submit_accept)
  then show "\<exists>s'. transact (submitEncryptedVote cap c e p) s = (Inr (), s')"
    by (simp add: transact_Inr)
qed

theorem window_gating_witness:
  "transact (submitEncryptedVote demoCapability (calling 2 999) 0 [1]) demoPoll
     = (Inl VotingClosed, demoPoll) \<and>
   transact (submitEncryptedVote demoCapability (calling 2 4601) 0 [1]) demoPoll
     = (Inl VotingClosed, demoPoll) \<and>
   (\<exists>s'. transact (submitEncryptedVote demoCapability (calling 2 1000) 0 [1]) demoPoll = (Inr (), s')) \<and>
   (\<exists>s'. transact (submitEncryptedVote demoCapability (calling 2 4600) 0 [1]) demoPoll = (Inr (), s'))"
proof -
  have early: "timestamp (calling 2 999) < startTime demoPoll"
    and late: "endTime demoPoll < timestamp (calling 2 4601)"
    by (simp_all add: calling_def demoPoll_eq)
  have first: "startTime demoPoll \<le> timestamp (calling 2 1000) \<and>
      timestamp (calling 2 1000) \<le> endTime demoPoll \<and>
      \<not> hasVoted demoPoll (sender (calling 2 1000)) \<and>
      fromExternal demoCapability (sender (calling 2 1000)) 0 [1] = Some 0"
    by (simp add: calling_def demoPoll_eq demoCapability_def)
  have last: "startTime demoPoll \<le> timestamp (calling 2 4600) \<and>
      timestamp (calling 2 4600) \<le> endTime demoPoll \<and>
      \<not> hasVoted demoPoll (sender (calling 2 4600)) \<and>
      fromExternal demoCapability (sender (calling 2 4600)) 0 [1] = Some 0"
    by (simp add: calling_def demoPoll_eq demoCapability_def)
  show ?thesis
    using window_gating [of "calling 2 999" demoPoll demoCapability 0 "[1]"] early
      window_gating [of "calling 2 4601" demoPoll demoCapability 0 "[1]"] late
      window_gating [of "calling 2 1000" demoPoll demoCapability 0 "[1]" 1000 0] first
      window_gating [of "calling 2 4600" demoPoll demoCapability 0 "[1]" 1000 0] last
      reachable_demoPoll
    by blast
qed

text \<open>C7. In every reachable storage, at a block timestamp not before that of the last
  transaction, \<open>requestEncryptedTallyDecryption\<close> fails with \<open>VotingStillOpen\<close> when the
  timestamp is before \<open>endTime\<close>, with \<open>AlreadyFinalized\<close> when the poll is finalised and with
  \<open>DecryptionAlreadyPending\<close> when a request is pending; whenever it fails, nothing was written
  before the revert and the transaction leaves the storage as it was.\<close>

theorem request_guards:
  assumes "reachable cap t s" and "t \<le> timestamp c"
  shows "(timestamp c < endTime s \<longrightarrow>
            requestEncryptedTallyDecryption cap c s = (Inl VotingStillOpen, s)) \<and>
         (finalized s \<longrightarrow>
            requestEncryptedTallyDecryption cap c s = (Inl AlreadyFinalized, s)) \<and>
         (decryptionPending s \<longrightarrow>
            requestEncryptedTallyDecryption cap c s = (Inl DecryptionAlreadyPending, s)) \<and>
         (\<forall>e s'. requestEncryptedTallyDecryption cap c s = (Inl e, s') \<longrightarrow>
            s' = s \<and> transact (requestEncryptedTallyDecryption cap c) s = (Inl e, s))"
proof -
  have inv: "consistent t s"
    using assms(1) by (rule reachable_consistent)
  have closed: "endTime s < timestamp c" if "finalized s \<or> decryptionPending s"
    using inv that assms(2) by (auto simp: consistent_def)
  have "requestEncryptedTallyDecryption cap c s = (Inl VotingStillOpen, s)"
    if "timestamp c < endTime s"
    using that by (intro request_still_open) simp
  moreover have "requestEncryptedTallyDecryption cap c s = (Inl AlreadyFinalized, s)"
    if "finalized s"
    using that closed by (intro request_finalized) simp_all
  moreover have "requestEncryptedTallyDecryption cap c s = (Inl DecryptionAlreadyPending, s)"
    if "decryptionPending s"
  proof -
    have "\<not> finalized s" using inv that by (auto simp: consistent_def)
    then show ?thesis using that closed by (intro request_pending) simp_all
  qed
  moreover have "s' = s \<and> transact (requestEncryptedTallyDecryption cap c) s = (Inl e, s)"
    if "requestEncryptedTallyDecryption cap c s = (Inl e, s')" for e s'
    using that request_Inl [OF that] by (simp add: transact_def)
  ultimately show ?thesis by blast
qed

theorem request_guards_witness:
  "requestEncryptedTallyDecryption demoCapability (calling 4 2500) votedPoll
     = (Inl VotingStillOpen, votedPoll) \<and>
   requestEncryptedTallyDecryption demoCapability (calling 4 7000) finalPoll
     = (Inl AlreadyFinalized, finalPoll) \<and>
   requestEncryptedTallyDecryption demoCapability (calling 4 5500) pendingPoll
     = (Inl DecryptionAlreadyPending, pendingPoll) \<and>
   transact (requestEncryptedTallyDecryption demoCapability (calling 4 5500)) pendingPoll
     = (Inl DecryptionAlreadyPending, pendingPoll)"
proof -
  have "(2000 :: uint256) \<le> timestamp (calling 4 2500)" "(6000 :: uint256) \<le> timestamp (calling 4 7000)"
    "(5000 :: uint256) \<le> timestamp (calling 4 5500)"
    by (simp_all add: calling_def)
  moreover have "timestamp (calling 4 2500) < endTime votedPoll" "finalized finalPoll"
    "decryptionPending pendingPoll"
    by (simp_all add: calling_def votedPoll_eq finalPoll_eq pendingPoll_eq demoPoll_eq)
  ultimately show ?thesis
    using request_guards [OF reachable_votedPoll, of "calling 4 2500"]
      request_guards [OF reachable_finalPoll, of "calling 4 7000"]
      request_guards [OF reachable_pendingPoll, of "calling 4 5500"]
    by blast
qed

text \<open>C8. In every reachable storage with a pending request, a callback with the recorded
  request identifier and accepted signatures whose payload decodes to a list of a length other
  than the option count fails with \<open>InvalidTallyLength\<close> before any write: the poll is not
  finalised, the request stays pending and the clear tallies are unchanged.\<close>

theorem length_integrity:
  assumes "reachable cap t s"
    and "decryptionPending s" and "requestId = decryptionRequestId s"
    and "checkSignatures cap requestId cleartexts signatures"
    and "abi_decode cap cleartexts = Some tallies"
    and "length tallies \<noteq> length (options s)"
  shows "decryptionCallback cap c requestId cleartexts signatures s = (Inl InvalidTallyLength, s) \<and>
         transact (decryptionCallback cap c requestId cleartexts signatures) s
           = (Inl InvalidTallyLength, s) \<and>
         \<not> finalized (perform cap c (Callback requestId cleartexts signatures) s) \<and>
         decryptionPending (perform cap c (Callback requestId cleartexts signatures) s) \<and>
         clearTallies (perform cap c (Callback requestId cleartexts signatures) s) = clearTallies s"
proof -
  have inv: "consistent t s"
    using assms(1) by (rule reachable_consistent)
  then have "length (clearTallies s) = length (options s)" "\<not> finalized s"
    using assms(2) by (auto simp: consistent_def)
  then have body: "decryptionCallback cap c requestId cleartexts signatures s = (Inl InvalidTallyLength, s)"
    using assms by (simp add: decryptionCallback_def)
  then have "transact (decryptionCallback cap c requestId cleartexts signatures) s
           = (Inl InvalidTallyLength, s)"
    by (rule transact_Inl)
  then show ?thesis
    using body assms(2) \<open>\<not> finalized s\<close> by simp
qed

theorem length_integrity_witness:
  "decryptionCallback demoCapability (calling 6 6000) 2 [1, 2, 3] [1] pendingPoll
     = (Inl InvalidTallyLength, pendingPoll) \<and>
   \<not> finalized (perform demoCapability (calling 6 6000) (Callback 2 [1, 2, 3] [1]) pendingPoll) \<and>
   decryptionPending (perform demoCapability (calling 6 6000) (Callback 2 [1, 2, 3] [1]) pendingPoll) \<and>
   clearTallies (perform demoCapability (calling 6 6000) (Callback 2 [1, 2, 3] [1]) pendingPoll) = [0, 0]"
proof -
  have h: "decryptionPending pendingPoll" "2 = decryptionRequestId pendingPoll"
    "checkSignatures demoCapability 2 [1, 2, 3] [1]"
    "abi_decode demoCapability [1, 2, 3] = Some [1, 2, 3]"
    "length [1, 2, 3 :: uint32] \<noteq> length (options pendingPoll)"
    "clearTallies pendingPoll = [0, 0]"
    by (simp_all add: pendingPoll_eq demoPoll_eq demoCapability_def)
  show ?thesis
    using length_integrity [OF reachable_pendingPoll h(1-5), of "calling 6 6000"] h(6)
    by metis
qed

text \<open>C9, as the code has it. The constructor fails with \<open>InsufficientOptions\<close> for fewer than
  two labels; with \<open>MismatchedOptionMetadata\<close> when there are at least two labels and the
  number of descriptions differs; with \<open>InvalidVotingDuration\<close> for a zero duration once the
  lists passed. A successful construction has a non-zero duration and \<open>startTime < endTime\<close>,
  stores the name, headline, description and the options as given, and no later sequence of
  transactions changes name, description, options, \<open>startTime\<close> or \<open>endTime\<close>.\<close>

theorem constructor_checks:
  "(length ls < 2 \<longrightarrow> constructor c n h d ls ds dur = Inl InsufficientOptions) \<and>
   (2 \<le> length ls \<and> length ds \<noteq> length ls \<longrightarrow>
      constructor c n h d ls ds dur = Inl MismatchedOptionMetadata) \<and>
   (2 \<le> length ls \<and> length ds = length ls \<and> dur = 0 \<longrightarrow>
      constructor c n h d ls ds dur = Inl InvalidVotingDuration) \<and>
   (constructor c n h d ls ds dur = Inr s \<longrightarrow>
      dur \<noteq> 0 \<and> startTime s < endTime s \<and>
      pollName s = n \<and> pollHeadline s = h \<and> pollDescription s = d \<and>
      options s = map (\<lambda>j. \<lparr>label = ls ! j, description = ds ! j\<rparr>) [0 ..< length ls] \<and>
      pollName (performAll cap ops s) = pollName s \<and>
      pollDescription (performAll cap ops s) = pollDescription s \<and>
      options (performAll cap ops s) = options s \<and>
      startTime (performAll cap ops s) = startTime s \<and>
      endTime (performAll cap ops s) = endTime s)"
proof (intro conjI impI)
  assume ok: "constructor c n h d ls ds dur = Inr s"
  note facts = constructor_Inr [OF ok]
  show "dur \<noteq> 0" by (rule facts(3))
  have "consistent (timestamp c) s"
    using ok by (rule consistent_deployed)
  then show "startTime s < endTime s"
    by (simp add: consistent_def)
  show "pollName s = n" "pollHeadline s = h" "pollDescription s = d"
    by (simp_all add: facts(5) constructorLoop_fields)
  show "options s = map (\<lambda>j. \<lparr>label = ls ! j, description = ds ! j\<rparr>) [0 ..< length ls]"
    by (simp add: facts(5) constructorLoop_options blank_def)
  show "pollName (performAll cap ops s) = pollName s"
    "pollDescription (performAll cap ops s) = pollDescription s"
    "options (performAll cap ops s) = options s"
    "startTime (performAll cap ops s) = startTime s"
    "endTime (performAll cap ops s) = endTime s"
    using performAll_immutable [of cap ops s] by simp_all
qed (simp_all add: constructor_def)

theorem constructor_checks_witness:
  "constructor (calling 1 1000) ''Poll'' ''Headline'' ''Description'' [''X''] [''x''] 3600
     = Inl InsufficientOptions \<and>
   constructor (calling 1 1000) ''Poll'' ''Headline'' ''Description'' [''X'', ''Y'', ''Z''] [''x'', ''y''] 3600
     = Inl MismatchedOptionMetadata \<and>
   constructor (calling 1 1000) ''Poll'' ''Headline'' ''Description'' [''X'', ''Y''] [''x'', ''y''] 0
     = Inl InvalidVotingDuration \<and>
   startTime demoPoll < endTime demoPoll \<and>
   options demoPoll = [\<lparr>label = ''X'', description = ''x''\<rparr>, \<lparr>label = ''Y'', description = ''y''\<rparr>] \<and>
   endTime (performAll demoCapability
      [(calling 2 2000, Vote 0 [1]), (calling 5 5000, Request), (calling 6 6000, Callback 2 [0, 0] [1])]
      demoPoll) = endTime demoPoll"
proof -
  have "length [''X''] < 2"
    "2 \<le> length [''X'', ''Y'', ''Z''] \<and> length [''x'', ''y''] \<noteq> length [''X'', ''Y'', ''Z'']"
    "2 \<le> length [''X'', ''Y''] \<and> length [''x'', ''y''] = length [''X'', ''Y''] \<and> (0 :: uint256) = 0"
    "map (\<lambda>j. \<lparr>label = [''X'', ''Y''] ! j, description = [''x'', ''y''] ! j\<rparr>) [0 ..< length [''X'', ''Y'']]
       = [\<lparr>label = ''X'', description = ''x''\<rparr>, \<lparr>label = ''Y'', description = ''y''\<rparr>]"
    by (simp_all add: upt_conv_Cons)
  then show ?thesis
    using constructor_checks [of "[''X'']" "calling 1 1000" "''Poll''" "''Headline''" "''Description''"
        "[''x'']" 3600]
      constructor_checks [of "[''X'', ''Y'', ''Z'']" "calling 1 1000" "''Poll''" "''Headline''"
        "''Description''" "[''x'', ''y'']" 3600]
      constructor_checks [of "[''X'', ''Y'']" "calling 1 1000" "''Poll''" "''Headline''"
        "''Description''" "[''x'', ''y'']" 0]
      constructor_checks [of "[''X'', ''Y'']" "calling 1 1000" "''Poll''" "''Headline''"
        "''Description''" "[''x'', ''y'']" 3600 demoPoll demoCapability
        "[(calling 2 2000, Vote 0 [1]), (calling 5 5000, Request), (calling 6 6000, Callback 2 [0, 0] [1])]"]
      demoPoll_deployed
    by metis
qed

text \<open>The claim as stated fails where both conditions hold: with one label and no description
  the lengths differ, and the constructor fails with \<open>InsufficientOptions\<close>, the first check.\<close>

theorem mismatch_counterexample:
  "length ([] :: string list) \<noteq> length [''X''] \<and>
   constructor (calling 1 1000) ''Poll'' ''Headline'' ''Description'' [''X''] [] 3600
     = Inl InsufficientOptions \<and>
   constructor (calling 1 1000) ''Poll'' ''Headline'' ''Description'' [''X''] [] 3600
     \<noteq> Inl MismatchedOptionMetadata"
  by (simp add: constructor_def)

text \<open>C10. \<open>decryptionCallback\<close> never looks at its caller: two calls that differ only in
  the call environment (sender, timestamp) have the same outcome, and the callback is accepted
  exactly when a request is pending, the request identifier is the recorded one, the signature
  check passes and the payload decodes to as many tallies as the poll has clear tallies.\<close>

theorem callback_ignores_caller:
  "decryptionCallback cap c requestId cleartexts signatures s =
     decryptionCallback cap c' requestId cleartexts signatures s \<and>
   ((\<exists>r s'. decryptionCallback cap c requestId cleartexts signatures s = (Inr r, s')) \<longleftrightarrow>
      decryptionPending s \<and> requestId = decryptionRequestId s \<and>
      checkSignatures cap requestId cleartexts signatures \<and>
      (\<exists>tallies. abi_decode cap cleartexts = Some tallies \<and>
         length tallies = length (clearTallies s)))"
  by (auto simp: decryptionCallback_def Let_def split: option.splits)

theorem callback_ignores_caller_witness:
  "decryptionCallback demoCapability (calling 5 6000) 2 [1, 2] [0] pendingPoll =
     decryptionCallback demoCapability (calling 9 7000) 2 [1, 2] [0] pendingPoll \<and>
   (\<exists>r s'. decryptionCallback demoCapability (calling 5 6000) 2 [1, 2] [0] pendingPoll = (Inr r, s'))"
proof -
  have "decryptionPending pendingPoll \<and> 2 = decryptionRequestId pendingPoll \<and>
      checkSignatures demoCapability 2 [1, 2] [0] \<and>
      (\<exists>tallies. abi_decode demoCapability [1, 2] = Some tallies \<and>
         length tallies = length (clearTallies pendingPoll))"
    by (simp add: pendingPoll_eq demoPoll_eq demoCapability_def)
  with callback_ignores_caller [of demoCapability "calling 5 6000" 2 "[1, 2]" "[0]" pendingPoll
      "calling 9 7000"]
  show ?thesis by blast
qed

end
